theory Spec2Isabelle
  imports Complex_Main "HOL-Library.Sublist" "HOL-Library.Monad_Syntax" "HOL-Library.Multiset"
begin

section \<open>JavaScript values\<close>

text \<open>
  A JavaScript string is a finite sequence of UTF-16 code units; a code unit is modelled by
  its number, so that \<open>length\<close> is the source's \<open>.length\<close> and the non-ASCII characters
  of the source's patterns are the numbers of their code units. \<open>js\<close> writes an ASCII
  literal. Numbers are exact rationals: the source computes on IEEE doubles, and the model
  agrees with it wherever the values involved are exactly representable.
\<close>

type_synonym jschar = nat
type_synonym jsstring = "jschar list"

definition js :: "string \<Rightarrow> jsstring" where
  "js s = map of_char s"

datatype js_error = TypeError

abbreviation NL :: jschar where "NL \<equiv> 10"
abbreviation TAB :: jschar where "TAB \<equiv> 9"
abbreviation SP :: jschar where "SP \<equiv> 32"

text \<open>
  The characters \<open>String.prototype.trim\<close> strips and \<open>\s\<close> matches: the WhiteSpace and
  LineTerminator code points of ECMAScript.
\<close>

definition isWhiteSpace :: "jschar \<Rightarrow> bool" where
  "isWhiteSpace c \<longleftrightarrow>
     c = 9 \<or> c = 10 \<or> c = 11 \<or> c = 12 \<or> c = 13 \<or> c = 32 \<or> c = 160 \<or> c = 5760 \<or>
     (8192 \<le> c \<and> c \<le> 8202) \<or> c = 8232 \<or> c = 8233 \<or> c = 8239 \<or> c = 8287 \<or>
     c = 12288 \<or> c = 65279"

definition isDigit :: "jschar \<Rightarrow> bool" where
  "isDigit c \<longleftrightarrow> 48 \<le> c \<and> c \<le> 57"

definition isUpper :: "jschar \<Rightarrow> bool" where
  "isUpper c \<longleftrightarrow> 65 \<le> c \<and> c \<le> 90"

definition isLower :: "jschar \<Rightarrow> bool" where
  "isLower c \<longleftrightarrow> 97 \<le> c \<and> c \<le> 122"

text \<open>\<open>\w\<close> is \<open>[A-Za-z0-9_]\<close>.\<close>

definition isWordChar :: "jschar \<Rightarrow> bool" where
  "isWordChar c \<longleftrightarrow> isUpper c \<or> isLower c \<or> isDigit c \<or> c = 95"

definition trim :: "jsstring \<Rightarrow> jsstring" where
  "trim s = rev (dropWhile isWhiteSpace (rev (dropWhile isWhiteSpace s)))"

text \<open>\<open>s.split('\n')\<close> and \<open>lines.join('\n')\<close>.\<close>

fun splitLines :: "jsstring \<Rightarrow> jsstring list" where
  "splitLines [] = [[]]"
| "splitLines (c # cs) =
     (if c = NL then [] # splitLines cs
      else (case splitLines cs of
              [] \<Rightarrow> [[c]]
            | l # ls \<Rightarrow> (c # l) # ls))"

fun joinLines :: "jsstring list \<Rightarrow> jsstring" where
  "joinLines [] = []"
| "joinLines [l] = l"
| "joinLines (l # ls) = l @ NL # joinLines ls"

text \<open>
  Patterns are matchers in the style of a backtracking matcher: a matcher is given the rest
  of the string from the position it is tried at and returns what is left behind the
  match. \<open>expect\<close> matches a literal; a negated class under \<open>*\<close> or \<open>+\<close> that is
  followed by a character it excludes takes the longest run (\<open>takeWhile\<close>,
  \<open>dropWhile\<close>), since giving characters back cannot make the follower match.
\<close>

fun expect :: "jsstring \<Rightarrow> jsstring \<Rightarrow> jsstring option" where
  "expect [] s = Some s"
| "expect (a # lit) [] = None"
| "expect (a # lit) (c # cs) = (if a = c then expect lit cs else None)"

text \<open>Alternatives: the first that matches.\<close>

definition orElse :: "'a option \<Rightarrow> 'a option \<Rightarrow> 'a option" where
  "orElse a b = (case a of Some r \<Rightarrow> Some r | None \<Rightarrow> b)"

text \<open>The text a match consumed, from the string it was tried on and what it left.\<close>

definition matchedText :: "jsstring \<Rightarrow> jsstring \<Rightarrow> jsstring" where
  "matchedText s rest = take (length s - length rest) s"

text \<open>
  \<open>s.replace(/re/g, r)\<close> for a pattern that matches no empty string and looks at nothing
  before the position it is tried at (no anchor, no look-behind): the scan tries the
  pattern at the current position; a match is replaced and the scan goes on behind it,
  otherwise the character is kept and the scan moves one position. The matcher returns
  the replacement with the rest behind the match.
\<close>

function replaceAll :: "(jsstring \<Rightarrow> (jsstring \<times> jsstring) option) \<Rightarrow> jsstring \<Rightarrow> jsstring" where
  "replaceAll m [] = []"
| "replaceAll m (c # cs) =
     (case m (c # cs) of
        None \<Rightarrow> c # replaceAll m cs
      | Some (r, rest) \<Rightarrow>
          if length rest < length (c # cs) then r @ replaceAll m rest
          else c # replaceAll m cs)"
  by pat_completeness auto
termination
  by (relation "measure (\<lambda>(m, s). length s)") auto

text \<open>The same scan with a replacement callback that reads and writes state.\<close>

function replaceAllSt ::
  "(jsstring \<Rightarrow> jsstring option) \<Rightarrow> (jsstring \<Rightarrow> 's \<Rightarrow> jsstring \<times> 's) \<Rightarrow> jsstring \<Rightarrow> 's
     \<Rightarrow> jsstring \<times> 's" where
  "replaceAllSt m f [] st = ([], st)"
| "replaceAllSt m f (c # cs) st =
     (case m (c # cs) of
        None \<Rightarrow> (case replaceAllSt m f cs st of (out, st') \<Rightarrow> (c # out, st'))
      | Some rest \<Rightarrow>
          if length rest < length (c # cs) then
            (case f (matchedText (c # cs) rest) st of
               (r, st1) \<Rightarrow>
                 (case replaceAllSt m f rest st1 of
                    (out, st2) \<Rightarrow> (r @ out, st2)))
          else (case replaceAllSt m f cs st of (out, st') \<Rightarrow> (c # out, st')))"
  by pat_completeness auto
termination
  by (relation "measure (\<lambda>(m, f, s, st). length s)") auto

section \<open>Markdown post-formatter (pdf-converter.js, formatMarkdown)\<close>

text \<open>\<open>/\n{3,}/\<close>, replaced by two newlines.\<close>

fun blankLinesMatch :: "jsstring \<Rightarrow> (jsstring \<times> jsstring) option" where
  "blankLinesMatch (a # b # c # rest) =
     (if a = NL \<and> b = NL \<and> c = NL then Some ([NL, NL], dropWhile (\<lambda>c. c = NL) rest)
      else None)"
| "blankLinesMatch s = None"

text \<open>\<open>/(\w)-\n(\w)/\<close>, replaced by \<open>$1$2\<close>.\<close>

fun brokenWordMatch :: "jsstring \<Rightarrow> (jsstring \<times> jsstring) option" where
  "brokenWordMatch (a # h # n # b # rest) =
     (if isWordChar a \<and> h = 45 \<and> n = NL \<and> isWordChar b then Some ([a, b], rest) else None)"
| "brokenWordMatch s = None"

text \<open>\<open>/[ \t]+/\<close>, replaced by one space.\<close>

fun spacingMatch :: "jsstring \<Rightarrow> (jsstring \<times> jsstring) option" where
  "spacingMatch (c # cs) =
     (if c = SP \<or> c = TAB then Some ([SP], dropWhile (\<lambda>c. c = SP \<or> c = TAB) cs) else None)"
| "spacingMatch [] = None"

definition formatMarkdown :: "jsstring \<Rightarrow> jsstring" where
  "formatMarkdown text =
     trim (joinLines (map trim (splitLines
       (replaceAll spacingMatch (replaceAll brokenWordMatch (replaceAll blankLinesMatch text))))))"

text \<open>Whether a pattern matches anywhere in a string.\<close>

definition matchesAnywhere :: "(jsstring \<Rightarrow> 'a option) \<Rightarrow> jsstring \<Rightarrow> bool" where
  "matchesAnywhere m s = list_ex (\<lambda>t. m t \<noteq> None) (suffixes s)"

section \<open>Image collapse and restore (editor.js)\<close>

text \<open>
  The placeholder is \<open>[\<close>, the four code units the source file holds for the camera sign,
  a space, \<open>IMAGE-COLLAPSED-\<close>, the id and \<open>]\<close>.
\<close>

definition cameraSign :: jsstring where
  "cameraSign = [63743, 252, 236, 8721]"

definition placeholderPrefix :: jsstring where
  "placeholderPrefix = 91 # cameraSign @ SP # js ''IMAGE-COLLAPSED-''"

definition placeholder :: "jsstring \<Rightarrow> jsstring" where
  "placeholder ident = placeholderPrefix @ ident @ [93]"

text \<open>
  \<open>/\[... IMAGE-COLLAPSED-([^\]]+)\]/\<close> tried at the start of \<open>s\<close>: the id and the
  rest behind the match. The id is the longest non-empty run without \<open>]\<close>, and \<open>]\<close>
  has to follow.
\<close>

definition placeholderMatch :: "jsstring \<Rightarrow> (jsstring \<times> jsstring) option" where
  "placeholderMatch s =
     do {
       s1 \<leftarrow> expect placeholderPrefix s;
       let ident = takeWhile (\<lambda>c. c \<noteq> 93) s1;
       rest \<leftarrow> (if ident \<noteq> [] then expect [93] (dropWhile (\<lambda>c. c \<noteq> 93) s1) else None);
       Some (ident, rest)
     }"

text \<open>
  The image store is a plain object used as a dictionary from ids to the stored markup.
  Reading a key that is not stored gives \<open>undefined\<close>, except for the names every object
  inherits from \<open>Object.prototype\<close>: those read as a function (or, for \<open>__proto__\<close>, an
  object), which is truthy, and \<open>replace\<close> converts the callback's result to a string.
  \<open>inheritedText\<close> is the text current engines print for it.
\<close>

type_synonym image_store = "jsstring \<rightharpoonup> jsstring"

definition objectPrototypeKeys :: "jsstring list" where
  "objectPrototypeKeys =
     [js ''constructor'', js ''__defineGetter__'', js ''__defineSetter__'',
      js ''hasOwnProperty'', js ''__lookupGetter__'', js ''__lookupSetter__'',
      js ''isPrototypeOf'', js ''propertyIsEnumerable'', js ''toString'', js ''valueOf'',
      js ''__proto__'', js ''toLocaleString'']"

definition inheritedText :: "jsstring \<Rightarrow> jsstring" where
  "inheritedText k =
     (if k = js ''__proto__'' then js ''[object Object]''
      else js ''function '' @ (if k = js ''constructor'' then js ''Object'' else k)
           @ js ''() { [native code] }'')"

text \<open>\<open>imageStore[id] || match\<close>, converted to a string.\<close>

definition storedOrMatch :: "image_store \<Rightarrow> jsstring \<Rightarrow> jsstring \<Rightarrow> jsstring" where
  "storedOrMatch store ident match =
     (case store ident of
        Some v \<Rightarrow> if v \<noteq> [] then v else match
      | None \<Rightarrow> if ident \<in> set objectPrototypeKeys then inheritedText ident else match)"

definition restoreMatch :: "image_store \<Rightarrow> jsstring \<Rightarrow> (jsstring \<times> jsstring) option" where
  "restoreMatch store s =
     (case placeholderMatch s of
        None \<Rightarrow> None
      | Some (ident, rest) \<Rightarrow> Some (storedOrMatch store ident (matchedText s rest), rest))"

definition restoreImages :: "image_store \<Rightarrow> jsstring \<Rightarrow> jsstring" where
  "restoreImages store content = replaceAll (restoreMatch store) content"

text \<open>
  \<open>/<p[^>]*><img[^>]*src="(data:image[^"]*)"[^>]*><\/p>/\<close> tried at the start of \<open>s\<close>.
  \<open>htmlImgTail\<close> is the pattern from \<open>src=\<close> on. The class before \<open>src=\<close> is the one
  place where the matcher backtracks: \<open>htmlImgAttrs\<close> first lets \<open>[^>]*\<close> take one more
  character and, when the rest of the pattern fails from there, tries the tail at the
  position itself.
\<close>

definition htmlImgTail :: "jsstring \<Rightarrow> jsstring option" where
  "htmlImgTail s =
     do {
       s1 \<leftarrow> expect (js ''src=\"data:image'') s;
       s2 \<leftarrow> expect [34] (dropWhile (\<lambda>c. c \<noteq> 34) s1);
       expect (js ''></p>'') (dropWhile (\<lambda>c. c \<noteq> 62) s2)
     }"

fun htmlImgAttrs :: "jsstring \<Rightarrow> jsstring option" where
  "htmlImgAttrs [] = htmlImgTail []"
| "htmlImgAttrs (c # cs) =
     (if c \<noteq> 62 then
        (case htmlImgAttrs cs of
           Some rest \<Rightarrow> Some rest
         | None \<Rightarrow> htmlImgTail (c # cs))
      else htmlImgTail (c # cs))"

definition htmlImgMatch :: "jsstring \<Rightarrow> jsstring option" where
  "htmlImgMatch s =
     do {
       s1 \<leftarrow> expect (js ''<p'') s;
       s2 \<leftarrow> expect (js ''><img'') (dropWhile (\<lambda>c. c \<noteq> 62) s1);
       htmlImgAttrs s2
     }"

text \<open>\<open>/!\[([^\]]*)\]\((data:image[^)]+)\)/\<close> tried at the start of \<open>s\<close>.\<close>

definition mdImgMatch :: "jsstring \<Rightarrow> jsstring option" where
  "mdImgMatch s =
     do {
       s1 \<leftarrow> expect (js ''!['') s;
       s2 \<leftarrow> expect (js ''](data:image'') (dropWhile (\<lambda>c. c \<noteq> 93) s1);
       if takeWhile (\<lambda>c. c \<noteq> 41) s2 \<noteq> [] then expect [41] (dropWhile (\<lambda>c. c \<noteq> 41) s2)
       else None
     }"

text \<open>
  The module's variables the collapse callback works on: the store, and how many random
  numbers have been drawn. \<open>rnd n\<close> is the text of the \<open>n\<close>-th draw,
  \<open>Math.random().toString(36).substr(2, 9)\<close>.
\<close>

record collapse_state =
  imageStore :: image_store
  draws :: nat

definition collapseCallback ::
  "(nat \<Rightarrow> jsstring) \<Rightarrow> jsstring \<Rightarrow> 'a collapse_state_scheme
     \<Rightarrow> jsstring \<times> 'a collapse_state_scheme" where
  "collapseCallback rnd match st =
     (let ident = js ''img-'' @ rnd (draws st)
      in (placeholder ident,
          st\<lparr>imageStore := (imageStore st)(ident \<mapsto> match), draws := Suc (draws st)\<rparr>))"

definition collapseImages ::
  "(nat \<Rightarrow> jsstring) \<Rightarrow> jsstring \<Rightarrow> 'a collapse_state_scheme
     \<Rightarrow> jsstring \<times> 'a collapse_state_scheme" where
  "collapseImages rnd content st =
     (case replaceAllSt htmlImgMatch (collapseCallback rnd) content st of
        (result, st1) \<Rightarrow> replaceAllSt mdImgMatch (collapseCallback rnd) result st1)"

text \<open>Whether a string occurs in another one.\<close>

definition occursIn :: "jsstring \<Rightarrow> jsstring \<Rightarrow> bool" where
  "occursIn p s = list_ex (prefix p) (suffixes s)"

subsection \<open>The editor's state and its operations\<close>

text \<open>
  The editor module's variables: the textarea (absent before \<open>init\<close> has found it) with
  its value, the collapse flag, the image store and the undo history.
\<close>

record editor = collapse_state +
  editorTextarea :: "jsstring option"
  imagesCollapsed :: bool
  history :: "jsstring list"
  historyIndex :: int

definition MAX_HISTORY :: nat where
  "MAX_HISTORY = 50"

definition setContent :: "jsstring \<Rightarrow> editor \<Rightarrow> editor" where
  "setContent content ed =
     (case editorTextarea ed of
        None \<Rightarrow> ed
      | Some v \<Rightarrow> ed\<lparr>editorTextarea := Some content, imagesCollapsed := False,
                        imageStore := Map.empty\<rparr>)"

definition toggleImageCollapse :: "(nat \<Rightarrow> jsstring) \<Rightarrow> editor \<Rightarrow> editor" where
  "toggleImageCollapse rnd ed =
     (case editorTextarea ed of
        None \<Rightarrow> ed
      | Some currentContent \<Rightarrow>
          if imagesCollapsed ed then
            ed\<lparr>editorTextarea := Some (restoreImages (imageStore ed) currentContent),
               imagesCollapsed := False\<rparr>
          else
            (case collapseImages rnd currentContent (ed\<lparr>imageStore := Map.empty\<rparr>) of
               (result, ed') \<Rightarrow> ed'\<lparr>editorTextarea := Some result, imagesCollapsed := True\<rparr>))"

text \<open>The public \<open>getContent\<close> of the module, which the export reads.\<close>

definition getContent :: "editor \<Rightarrow> jsstring" where
  "getContent ed =
     (case editorTextarea ed of
        None \<Rightarrow> []
      | Some currentContent \<Rightarrow>
          if imagesCollapsed ed then restoreImages (imageStore ed) currentContent
          else currentContent)"

text \<open>
  \<open>history[historyIndex]\<close> is \<open>undefined\<close> outside the array, which no string equals.
\<close>

definition saveToHistory :: "editor \<Rightarrow> editor" where
  "saveToHistory ed =
     (case editorTextarea ed of
        None \<Rightarrow> ed
      | Some currentContent \<Rightarrow>
          if 0 \<le> historyIndex ed \<and> nat (historyIndex ed) < length (history ed) \<and>
             history ed ! nat (historyIndex ed) = currentContent
          then ed
          else
            let h1 = (if historyIndex ed < int (length (history ed)) - 1
                      then take (nat (historyIndex ed + 1)) (history ed)
                      else history ed);
                h2 = h1 @ [currentContent]
            in if length h2 > MAX_HISTORY then ed\<lparr>history := tl h2\<rparr>
               else ed\<lparr>history := h2, historyIndex := historyIndex ed + 1\<rparr>)"

text \<open>
  The user edits the textarea: the browser sets the value and fires the input event, whose
  listener saves to the history (\<open>isUndoRedo\<close> is false whenever a listener runs, since
  undo and redo set and reset it within one call).
\<close>

definition inputEvent :: "jsstring \<Rightarrow> editor \<Rightarrow> editor" where
  "inputEvent newValue ed =
     (case editorTextarea ed of
        None \<Rightarrow> ed
      | Some v \<Rightarrow> saveToHistory (ed\<lparr>editorTextarea := Some newValue\<rparr>))"

text \<open>
  \<open>undo\<close> writes the textarea without testing for it (a TypeError when it is absent);
  an index outside the history reads \<open>undefined\<close>, which the textarea takes as text.
\<close>

definition undo :: "editor \<Rightarrow> js_error + editor" where
  "undo ed =
     (if historyIndex ed > 0 then
        (case editorTextarea ed of
           None \<Rightarrow> Inl TypeError
         | Some v \<Rightarrow>
             let i = nat (historyIndex ed - 1)
             in Inr (ed\<lparr>historyIndex := historyIndex ed - 1,
                        editorTextarea :=
                          Some (if i < length (history ed) then history ed ! i
                                else js ''undefined'')\<rparr>))
      else Inr ed)"

definition initialEditor :: editor where
  "initialEditor =
     \<lparr>imageStore = Map.empty, draws = 0, editorTextarea = Some [], imagesCollapsed = False,
      history = [], historyIndex = - 1\<rparr>"

section \<open>PDF image extractor: the transform stack (pdf-converter.js)\<close>

type_synonym matrix = "rat \<times> rat \<times> rat \<times> rat \<times> rat \<times> rat"

fun multiplyMatrices :: "matrix \<Rightarrow> matrix \<Rightarrow> matrix" where
  "multiplyMatrices (a0, a1, a2, a3, a4, a5) (b0, b1, b2, b3, b4, b5) =
     (a0 * b0 + a2 * b1,
      a1 * b0 + a3 * b1,
      a0 * b2 + a2 * b3,
      a1 * b2 + a3 * b3,
      a0 * b4 + a2 * b5 + a4,
      a1 * b4 + a3 * b5 + a5)"

text \<open>
  One entry of the operator list: the opcode with the arguments the scan reads. Every
  opcode the scan does not test for is \<open>OtherOp\<close>.
\<close>

datatype pdf_op =
    Save
  | Restore
  | Transform matrix
  | PaintImageXObject jsstring
  | PaintJpegXObject jsstring
  | OtherOp

record image_op =
  io_name :: jsstring
  io_y :: rat

record scan_state =
  ctmStack :: "matrix list"
  imageOps :: "image_op list"

definition identityMatrix :: matrix where
  "identityMatrix = (1, 0, 0, 1, 0, 0)"

definition initialScan :: scan_state where
  "initialScan = \<lparr>ctmStack = [identityMatrix], imageOps = []\<rparr>"

text \<open>
  The stack is the source's array: \<open>push\<close> appends, \<open>pop\<close> drops the last entry and the
  current matrix is the last entry. Reading the last entry of an empty array gives
  \<open>undefined\<close>, and spreading or indexing \<open>undefined\<close> throws a TypeError.
\<close>

definition paintImage :: "scan_state \<Rightarrow> jsstring \<Rightarrow> js_error + scan_state" where
  "paintImage st imageName =
     (if ctmStack st = [] then Inl TypeError
      else
        let currentCTM = last (ctmStack st);
            yPos = (case currentCTM of (a0, a1, a2, a3, a4, a5) \<Rightarrow> a5)
        in if imageName \<noteq> [] \<and> \<not> list_ex (\<lambda>io. io_name io = imageName) (imageOps st)
           then Inr (st\<lparr>imageOps := imageOps st @ [\<lparr>io_name = imageName, io_y = yPos\<rparr>]\<rparr>)
           else Inr st)"

fun opStep :: "scan_state \<Rightarrow> pdf_op \<Rightarrow> js_error + scan_state" where
  "opStep st Save =
     (if ctmStack st = [] then Inl TypeError
      else Inr (st\<lparr>ctmStack := ctmStack st @ [last (ctmStack st)]\<rparr>))"
| "opStep st Restore =
     (if length (ctmStack st) > 1 then Inr (st\<lparr>ctmStack := butlast (ctmStack st)\<rparr>)
      else Inr st)"
| "opStep st (Transform args) =
     (if ctmStack st = [] then Inl TypeError
      else
        let currentCTM = last (ctmStack st);
            newMatrix = multiplyMatrices currentCTM args
        in Inr (st\<lparr>ctmStack := (ctmStack st)[length (ctmStack st) - 1 := newMatrix]\<rparr>))"
| "opStep st (PaintImageXObject imageName) = paintImage st imageName"
| "opStep st (PaintJpegXObject imageName) = paintImage st imageName"
| "opStep st OtherOp = Inr st"

fun scanOps :: "pdf_op list \<Rightarrow> scan_state \<Rightarrow> js_error + scan_state" where
  "scanOps [] st = Inr st"
| "scanOps (op # ops) st =
     (case opStep st op of Inl e \<Rightarrow> Inl e | Inr st' \<Rightarrow> scanOps ops st')"

text \<open>\<open>imageOps.sort((a, b) => b.y - a.y)\<close>: a stable sort, descending in \<open>y\<close>.\<close>

definition sortImageOps :: "image_op list \<Rightarrow> image_op list" where
  "sortImageOps ios = sort_key (\<lambda>io. - io_y io) ios"

section \<open>PDF text-block reconstructor (pdf-converter.js)\<close>

text \<open>
  An item of the page's text content as the PDF library gives it, and the run the
  reconstructor keeps of it. \<open>Math.round\<close> rounds half up.
\<close>

record text_item =
  ti_str :: jsstring
  ti_transform :: matrix
  ti_height :: rat
  ti_fontName :: jsstring

record glyph =
  g_str :: jsstring
  g_x :: rat
  g_y :: rat
  g_fontSize :: rat
  g_fontName :: jsstring

record text_block =
  tb_items :: "glyph list"
  tb_y :: rat
  tb_minY :: "rat option"
  tb_maxY :: "rat option"
  tb_text :: jsstring

definition mathRound :: "rat \<Rightarrow> rat" where
  "mathRound v = of_int \<lfloor>v + 1 / 2\<rfloor>"

subsection \<open>Double arithmetic\<close>

text \<open>
  A number of the page is the exact value of a finite double. An arithmetic operation of
  the source gives the exact result rounded to the nearest double, ties to the even
  significand, and an infinity from the middle between the largest double and \<open>2^1024\<close>
  on: \<open>roundDouble\<close> is that rounding, with 53 bits above the exponent of the value and
  no bit below \<open>2^-1074\<close>. \<open>exponentOf a\<close> is the exponent of the leading bit of a
  positive \<open>a\<close>. \<open>Math.round\<close> and \<open>Math.abs\<close> are exact.
\<close>

datatype number = Finite rat | PlusInfinity | MinusInfinity

function log2floor :: "nat \<Rightarrow> nat" where
  "log2floor n = (if n < 2 then 0 else Suc (log2floor (n div 2)))"
  by pat_completeness auto
termination
  by (relation "measure id") auto

declare log2floor.simps [simp del]

definition exponentOf :: "rat \<Rightarrow> int" where
  "exponentOf a =
     (if a \<ge> 1 then int (log2floor (nat \<lfloor>a\<rfloor>))
      else - int (Suc (log2floor (nat \<lceil>1 / a\<rceil> - 1))))"

definition pow2 :: "int \<Rightarrow> rat" where
  "pow2 k = (if k \<ge> 0 then 2 ^ nat k else 1 / 2 ^ nat (- k))"

definition roundHalfEven :: "rat \<Rightarrow> int" where
  "roundHalfEven r =
     (let f = \<lfloor>r\<rfloor>;
          d = r - of_int f
      in if d < 1 / 2 then f
         else if d > 1 / 2 then f + 1
         else if even f then f else f + 1)"

definition roundDouble :: "rat \<Rightarrow> number" where
  "roundDouble v =
     (if v = 0 then Finite 0
      else
        let a = \<bar>v\<bar>;
            q = max (exponentOf a - 52) (- 1074);
            r = of_int (roundHalfEven (a / pow2 q)) * pow2 q
        in if r \<ge> pow2 1024 then (if v > 0 then PlusInfinity else MinusInfinity)
           else Finite (if v > 0 then r else - r))"

fun absNumber :: "number \<Rightarrow> number" where
  "absNumber (Finite v) = Finite \<bar>v\<bar>"
| "absNumber PlusInfinity = PlusInfinity"
| "absNumber MinusInfinity = PlusInfinity"

fun greaterThan :: "number \<Rightarrow> number \<Rightarrow> bool" where
  "greaterThan (Finite a) (Finite b) \<longleftrightarrow> a > b"
| "greaterThan (Finite a) PlusInfinity \<longleftrightarrow> False"
| "greaterThan (Finite a) MinusInfinity \<longleftrightarrow> True"
| "greaterThan PlusInfinity PlusInfinity \<longleftrightarrow> False"
| "greaterThan PlusInfinity (Finite b) \<longleftrightarrow> True"
| "greaterThan PlusInfinity MinusInfinity \<longleftrightarrow> True"
| "greaterThan MinusInfinity b \<longleftrightarrow> False"

text \<open>\<open>Math.abs(y - lastY) > limit\<close>, where \<open>limit\<close> is a number already computed.\<close>

definition gapExceeds :: "rat \<Rightarrow> rat \<Rightarrow> number \<Rightarrow> bool" where
  "gapExceeds y lastY limit \<longleftrightarrow> greaterThan (absNumber (roundDouble (y - lastY))) limit"

subsection \<open>Lines of a block and the words of a line\<close>

text \<open>
  Grouping the runs of a block into lines: a run more than 3 units away from the one
  before it starts a new line.
\<close>

fun groupLines :: "glyph list \<Rightarrow> glyph list \<Rightarrow> rat \<Rightarrow> glyph list list" where
  "groupLines [] currentLine lastY = (if currentLine \<noteq> [] then [currentLine] else [])"
| "groupLines (item # items) currentLine lastY =
     (if gapExceeds (g_y item) lastY (Finite 3)
      then (if currentLine \<noteq> [] then [currentLine] else []) @ groupLines items [item] (g_y item)
      else groupLines items (currentLine @ [item]) (g_y item))"

text \<open>
  The loop over the sorted runs of a line, behind the first run: a space goes in when the
  run starts more than 0.2 of the average character width (half the font size) behind the
  estimated end of the run before it.
\<close>

fun gapJoin :: "rat \<Rightarrow> glyph list \<Rightarrow> jsstring" where
  "gapJoin lastEndX [] = []"
| "gapJoin lastEndX (item # items) =
     (let avgCharWidth = g_fontSize item * (1 / 2);
          gap = g_x item - lastEndX
      in (if gap > avgCharWidth * (1 / 5) then [SP] else []) @ g_str item @
         gapJoin (g_x item + of_nat (length (g_str item)) * avgCharWidth) items)"

text \<open>
  Sorting by X (a stable sort) and joining; the result trimmed. The source calls this on
  the lines of \<open>groupLines\<close> only, which are never empty.
\<close>

definition joinLineItems :: "glyph list \<Rightarrow> jsstring" where
  "joinLineItems lineItems =
     (case sort_key g_x lineItems of
        [] \<Rightarrow> []
      | item # items \<Rightarrow>
          trim (g_str item @
                gapJoin (g_x item + of_nat (length (g_str item)) * (g_fontSize item * (1 / 2)))
                  items))"

subsection \<open>Spacing repairs\<close>

text \<open>
  \<open>/(P)(Q)/g\<close> replaced by \<open>$1 $2\<close> for two character classes, and the pattern with a
  third character behind.
\<close>

fun pairMatch ::
  "(jschar \<Rightarrow> bool) \<Rightarrow> (jschar \<Rightarrow> bool) \<Rightarrow> jsstring \<Rightarrow> (jsstring \<times> jsstring) option" where
  "pairMatch P Q (a # b # rest) = (if P a \<and> Q b then Some ([a, SP, b], rest) else None)"
| "pairMatch P Q s = None"

fun tripleMatch :: "jsstring \<Rightarrow> (jsstring \<times> jsstring) option" where
  "tripleMatch (a # b # c # rest) =
     (if isLower a \<and> isUpper b \<and> isLower c then Some ([a, SP, b, c], rest) else None)"
| "tripleMatch s = None"

definition isLetter :: "jschar \<Rightarrow> bool" where
  "isLetter c \<longleftrightarrow> isUpper c \<or> isLower c"

definition repairSpacing :: "jsstring \<Rightarrow> jsstring" where
  "repairSpacing text =
     (let t1 = replaceAll (pairMatch isLower isUpper) text;
          t2 = replaceAll (pairMatch (\<lambda>c. c = 46) isLetter) t1;
          t3 = replaceAll (pairMatch (\<lambda>c. c = 58) isLetter) t2;
          t4 = replaceAll (pairMatch (\<lambda>c. c = 44) isLetter) t3;
          t5 = replaceAll (pairMatch (\<lambda>c. c = 59) isLetter) t4;
          t6 = replaceAll (pairMatch isDigit isUpper) t5;
          t7 = replaceAll (pairMatch isLower isDigit) t6;
          t8 = replaceAll tripleMatch t7;
          t9 = replaceAll (pairMatch (\<lambda>c. c = 41) isUpper) t8
      in replaceAll (pairMatch (\<lambda>c. c = 93) isUpper) t9)"

subsection \<open>Classifying a line\<close>

text \<open>
  \<open>toLowerCase\<close> on the letters A to Z and on the Kelvin sign U+212A, the one other
  character whose lower case is a single ASCII letter; other characters are kept, which changes
  neither whether \<open>bold\<close> occurs in the result nor whether the result equals an ASCII
  literal.
\<close>

definition toLowerCase :: "jsstring \<Rightarrow> jsstring" where
  "toLowerCase s = map (\<lambda>c. if isUpper c then c + 32 else if c = 8490 then 107 else c) s"

definition isBoldFont :: "jsstring \<Rightarrow> bool" where
  "isBoldFont fontName \<longleftrightarrow>
     fontName \<noteq> [] \<and>
     (occursIn (js ''bold'') (toLowerCase fontName) \<or> occursIn (js ''Bold'') fontName)"

text \<open>\<open>.\<close> in a pattern matches every character but the line terminators.\<close>

definition isLineTerminator :: "jschar \<Rightarrow> bool" where
  "isLineTerminator c \<longleftrightarrow> c = 10 \<or> c = 13 \<or> c = 8232 \<or> c = 8233"

definition restOfLine :: "jsstring \<Rightarrow> jsstring" where
  "restOfLine s = takeWhile (\<lambda>c. \<not> isLineTerminator c) s"

definition isDotOrParen :: "jschar \<Rightarrow> bool" where
  "isDotOrParen c \<longleftrightarrow> c = 46 \<or> c = 41"

text \<open>\<open>/^(\d+)[.)]\s+(.*)/\<close>: the number and the text behind it.\<close>

definition numberedMatch :: "jsstring \<Rightarrow> (jsstring \<times> jsstring) option" where
  "numberedMatch text =
     (let num = takeWhile isDigit text in
      case dropWhile isDigit text of
        [] \<Rightarrow> None
      | c # rest \<Rightarrow>
          if num \<noteq> [] \<and> isDotOrParen c \<and> takeWhile isWhiteSpace rest \<noteq> []
          then Some (num, restOfLine (dropWhile isWhiteSpace rest))
          else None)"

text \<open>\<open>/^\d+[.)]([A-Z])/\<close> as the test and \<open>/^(\d+)[.)](.*)/\<close> as the match.\<close>

definition mergedNumberMatch :: "jsstring \<Rightarrow> (jsstring \<times> jsstring) option" where
  "mergedNumberMatch text =
     (let num = takeWhile isDigit text in
      case dropWhile isDigit text of
        c # u # rest \<Rightarrow>
          if num \<noteq> [] \<and> isDotOrParen c \<and> isUpper u then Some (num, restOfLine (u # rest))
          else None
      | _ \<Rightarrow> None)"

text \<open>\<open>/^([a-z])[.)]\s*(.*)/i\<close>.\<close>

fun letteredMatch :: "jsstring \<Rightarrow> (jschar \<times> jsstring) option" where
  "letteredMatch (l # c # rest) =
     (if isLetter l \<and> isDotOrParen c then Some (l, restOfLine (dropWhile isWhiteSpace rest))
      else None)"
| "letteredMatch s = None"

text \<open>
  \<open>/^(i{1,3}|iv|v|vi{0,3})[.)]\s*(.*)/i\<close>. The alternatives are tried in order, each with
  the \<open>[.)]\<close> behind it; a run of \<open>i\<close> matches only as a whole, since what follows a
  shorter part of it is an \<open>i\<close>.
\<close>

definition isI :: "jschar \<Rightarrow> bool" where
  "isI c \<longleftrightarrow> c = 105 \<or> c = 73"

definition isV :: "jschar \<Rightarrow> bool" where
  "isV c \<longleftrightarrow> c = 118 \<or> c = 86"

definition romanTail :: "jsstring \<Rightarrow> jsstring \<Rightarrow> (jsstring \<times> jsstring) option" where
  "romanTail roman s =
     (case s of
        c # rest \<Rightarrow>
          if isDotOrParen c then Some (roman, restOfLine (dropWhile isWhiteSpace rest))
          else None
      | [] \<Rightarrow> None)"

definition romanRun :: "nat \<Rightarrow> nat \<Rightarrow> jsstring \<Rightarrow> jsstring \<Rightarrow> (jsstring \<times> jsstring) option" where
  "romanRun lo hi lead s =
     (let run = takeWhile isI s in
      if lo \<le> length run \<and> length run \<le> hi then romanTail (lead @ run) (dropWhile isI s)
      else None)"

definition ivAlternative :: "jsstring \<Rightarrow> (jsstring \<times> jsstring) option" where
  "ivAlternative text =
     (case text of
        a # b # rest \<Rightarrow> if isI a \<and> isV b then romanTail [a, b] rest else None
      | _ \<Rightarrow> None)"

definition vAlternative :: "jsstring \<Rightarrow> (jsstring \<times> jsstring) option" where
  "vAlternative text =
     (case text of
        a # rest \<Rightarrow> if isV a then romanTail [a] rest else None
      | [] \<Rightarrow> None)"

definition viAlternative :: "jsstring \<Rightarrow> (jsstring \<times> jsstring) option" where
  "viAlternative text =
     (case text of
        a # rest \<Rightarrow> if isV a then romanRun 0 3 [a] rest else None
      | [] \<Rightarrow> None)"

definition romanMatch :: "jsstring \<Rightarrow> (jsstring \<times> jsstring) option" where
  "romanMatch text =
     orElse (romanRun 1 3 [] text)
       (orElse (ivAlternative text) (orElse (vAlternative text) (viAlternative text)))"

text \<open>\<open>/^[...-]\s*/\<close> with the eight bullet signs of the source and the hyphen.\<close>

definition isBullet :: "jschar \<Rightarrow> bool" where
  "isBullet c \<longleftrightarrow> c \<in> {8226, 9679, 9675, 9702, 9642, 9643, 9658, 9656, 45}"

text \<open>\<open>/^\d+\./\<close>.\<close>

definition startsWithNumberDot :: "jsstring \<Rightarrow> bool" where
  "startsWithNumberDot text \<longleftrightarrow>
     takeWhile isDigit text \<noteq> [] \<and> prefix [46] (dropWhile isDigit text)"

definition sumFontSizes :: "glyph list \<Rightarrow> rat" where
  "sumFontSizes lineItems = foldl (\<lambda>sum i. sum + g_fontSize i) 0 lineItems"

definition indentPrefixOf :: "rat \<Rightarrow> jsstring" where
  "indentPrefixOf firstItemX =
     (if firstItemX > 100 then replicate 8 SP
      else if firstItemX > 60 then replicate 4 SP
      else [])"

text \<open>
  The list rules and the indentation, tried in the source's order when no heading rule
  applies; a rule that does not return falls through to the next.
\<close>

definition numberedItem :: "jsstring \<Rightarrow> jsstring option" where
  "numberedItem text =
     (case numberedMatch text of
        Some (num, rest) \<Rightarrow> if rest \<noteq> [] then Some (num @ js ''. '' @ rest) else None
      | None \<Rightarrow> None)"

definition mergedItem :: "jsstring \<Rightarrow> jsstring option" where
  "mergedItem text =
     (case mergedNumberMatch text of
        Some (num, rest) \<Rightarrow> if rest \<noteq> [] then Some (num @ js ''. '' @ rest) else None
      | None \<Rightarrow> None)"

definition letteredItem :: "jsstring \<Rightarrow> jsstring option" where
  "letteredItem text =
     (case letteredMatch text of
        Some (l, rest) \<Rightarrow> Some (replicate 4 SP @ toLowerCase [l] @ js ''. '' @ rest)
      | None \<Rightarrow> None)"

definition romanItem :: "jsstring \<Rightarrow> jsstring option" where
  "romanItem text =
     (case romanMatch text of
        Some (roman, rest) \<Rightarrow> Some (replicate 8 SP @ toLowerCase roman @ js ''. '' @ rest)
      | None \<Rightarrow> None)"

definition bulletOrPlain :: "jsstring \<Rightarrow> jsstring \<Rightarrow> jsstring" where
  "bulletOrPlain indentPrefix text =
     (case text of
        c # rest \<Rightarrow>
          if isBullet c then indentPrefix @ js ''- '' @ dropWhile isWhiteSpace rest
          else if indentPrefix \<noteq> [] \<and> \<not> startsWithNumberDot text then indentPrefix @ text
          else text
      | [] \<Rightarrow> text)"

definition classifyList :: "jsstring \<Rightarrow> jsstring \<Rightarrow> jsstring" where
  "classifyList indentPrefix text =
     (case orElse (numberedItem text)
             (orElse (mergedItem text) (orElse (letteredItem text) (romanItem text))) of
        Some r \<Rightarrow> r
      | None \<Rightarrow> bulletOrPlain indentPrefix text)"

definition classifyLine :: "glyph list \<Rightarrow> jsstring \<Rightarrow> jsstring" where
  "classifyLine lineItems text =
     (let avgFontSize = sumFontSizes lineItems / of_nat (length lineItems);
          isBold = list_ex (\<lambda>i. isBoldFont (g_fontName i)) lineItems;
          firstItemX = (case lineItems of [] \<Rightarrow> 0 | item # items \<Rightarrow> g_x item);
          indentPrefix = indentPrefixOf firstItemX
      in if avgFontSize \<ge> 20 then js ''# '' @ text
         else if avgFontSize \<ge> 16 then js ''## '' @ text
         else if avgFontSize \<ge> 14 \<and> isBold then js ''### '' @ text
         else if avgFontSize \<ge> 13 \<and> isBold \<and> length text < 80 then js ''#### '' @ text
         else if isBold \<and> length text < 60 \<and> 58 \<notin> set text then js ''**'' @ text @ js ''**''
         else classifyList indentPrefix text)"

definition processLine :: "glyph list \<Rightarrow> jsstring" where
  "processLine lineItems =
     classifyLine (sort_key g_x lineItems) (repairSpacing (joinLineItems lineItems))"

definition processTextBlock :: "glyph list \<Rightarrow> jsstring" where
  "processTextBlock items =
     (case items of
        [] \<Rightarrow> []
      | item # rest \<Rightarrow> joinLines (map processLine (groupLines items [] (g_y item))))"

subsection \<open>Segmenting the page into blocks\<close>

definition emptyBlock :: text_block where
  "emptyBlock = \<lparr>tb_items = [], tb_y = 0, tb_minY = None, tb_maxY = None, tb_text = []\<rparr>"

text \<open>
  Closing the current block: its position is its top, its text the processed runs, and it
  is kept when the text is not blank. \<open>minY\<close> and \<open>maxY\<close> start at plus and minus
  infinity (\<open>None\<close>) and hold a number as soon as the block has a run.
\<close>

definition closeBlock :: "text_block \<Rightarrow> text_block list" where
  "closeBlock currentBlock =
     (if tb_items currentBlock \<noteq> [] then
        let text = processTextBlock (tb_items currentBlock);
            b = currentBlock\<lparr>tb_y := (case tb_maxY currentBlock of Some m \<Rightarrow> m | None \<Rightarrow> 0),
                             tb_text := text\<rparr>
        in if trim text \<noteq> [] then [b] else []
      else [])"

fun blockLoop ::
  "text_item list \<Rightarrow> text_block \<Rightarrow> rat option \<Rightarrow> text_block list" where
  "blockLoop [] currentBlock lastY = closeBlock currentBlock"
| "blockLoop (item # items) currentBlock lastY =
     (if ti_str item = [] \<or> trim (ti_str item) = [] then blockLoop items currentBlock lastY
      else
        let y = (case ti_transform item of (a0, a1, a2, a3, a4, a5) \<Rightarrow> a5);
            x = (case ti_transform item of (a0, a1, a2, a3, a4, a5) \<Rightarrow> a4);
            fontSize = mathRound (ti_height item);
            newBlock = (case lastY of None \<Rightarrow> False
                        | Some l \<Rightarrow> gapExceeds y l (roundDouble (fontSize * (3 / 2))));
            block0 = (if newBlock then emptyBlock else currentBlock);
            block1 = block0\<lparr>
              tb_items := tb_items block0 @
                [\<lparr>g_str = ti_str item, g_x = x, g_y = y, g_fontSize = fontSize,
                  g_fontName = ti_fontName item\<rparr>],
              tb_minY := Some (case tb_minY block0 of None \<Rightarrow> y | Some m \<Rightarrow> min m y),
              tb_maxY := Some (case tb_maxY block0 of None \<Rightarrow> y | Some m \<Rightarrow> max m y)\<rparr>
        in (if newBlock then closeBlock currentBlock else []) @ blockLoop items block1 (Some y))"

definition extractTextBlocks :: "text_item list \<Rightarrow> text_block list" where
  "extractTextBlocks items = (if items = [] then [] else blockLoop items emptyBlock None)"

subsection \<open>Synthetic runs\<close>

text \<open>
  Modelled from the spec: the synthetic glyph runs with known X-spacing of the spec's
  test property, which the repository does not hold. A text of words separated by single
  spaces is laid out from \<open>x\<close> with every character, the space too, as wide as the
  average character width the reconstructor assumes (half the font size); a word is one
  or more runs, each placed where the one before it ends. \<open>joinWords\<close> is the text, and
  \<open>plainWords\<close> says that no word and no run is empty and that no run holds white space.
\<close>

fun layoutWord :: "rat \<Rightarrow> rat \<Rightarrow> rat \<Rightarrow> jsstring list \<Rightarrow> glyph list" where
  "layoutWord fontSize y x [] = []"
| "layoutWord fontSize y x (r # rs) =
     \<lparr>g_str = r, g_x = x, g_y = y, g_fontSize = fontSize, g_fontName = []\<rparr> #
     layoutWord fontSize y (x + of_nat (length r) * (fontSize * (1 / 2))) rs"

fun layoutWords :: "rat \<Rightarrow> rat \<Rightarrow> rat \<Rightarrow> jsstring list list \<Rightarrow> glyph list" where
  "layoutWords fontSize y x [] = []"
| "layoutWords fontSize y x (w # ws) =
     layoutWord fontSize y x w @
     layoutWords fontSize y (x + (of_nat (length (concat w)) + 1) * (fontSize * (1 / 2))) ws"

fun joinWords :: "jsstring list list \<Rightarrow> jsstring" where
  "joinWords [] = []"
| "joinWords [w] = concat w"
| "joinWords (w # ws) = concat w @ SP # joinWords ws"

definition plainWords :: "jsstring list list \<Rightarrow> bool" where
  "plainWords ws \<longleftrightarrow>
     (\<forall>w\<in>set ws. w \<noteq> [] \<and> (\<forall>r\<in>set w. r \<noteq> [] \<and> (\<forall>c\<in>set r. \<not> isWhiteSpace c)))"

section \<open>PDF page assembler (pdf-converter.js, convertPdfToMarkdown)\<close>



record extracted_image =
  img_index :: nat
  img_dataUrl :: jsstring
  img_width :: nat
  img_height :: nat

text \<open>A number in a template string: its decimal digits.\<close>

function showNat :: "nat \<Rightarrow> jsstring" where
  "showNat n = (if n < 10 then [48 + n] else showNat (n div 10) @ [48 + n mod 10])"
  by pat_completeness auto
termination
  by (relation "measure id") auto







text \<open>
  The loop over the pages, on what the two extractors return for each page: the text
  blocks and the images with their positions.
\<close>

record conversion =
  markdown :: jsstring
  allImages :: "extracted_image list"
  globalImageCounter :: nat

definition initialConversion :: conversion where
  "initialConversion = \<lparr>markdown = [], allImages = [], globalImageCounter = 1\<rparr>"


definition convertResult :: "conversion \<Rightarrow> jsstring" where
  "convertResult conv = formatMarkdown (trim (markdown conv))"

section \<open>DOCX normalizer (export.js)\<close>

text \<open>
  The parsed HTML tree. A node is a text node with its text, or an element with its
  \<open>tagName\<close> as the DOM reports it (upper case for the elements of an HTML document), its
  attributes and its child nodes.
\<close>

datatype node = TextNode jsstring | Element jsstring "(jsstring \<times> jsstring) list" "node list"

fun childNodes :: "node \<Rightarrow> node list" where
  "childNodes (TextNode t) = []"
| "childNodes (Element tg attrs cs) = cs"

fun tagName :: "node \<Rightarrow> jsstring" where
  "tagName (TextNode t) = []"
| "tagName (Element tg attrs cs) = tg"

text \<open>\<open>getAttribute(name) || fallback\<close>: a missing and an empty attribute both give the fallback.\<close>

definition attributeOr :: "(jsstring \<times> jsstring) list \<Rightarrow> jsstring \<Rightarrow> jsstring \<Rightarrow> jsstring" where
  "attributeOr attrs name fallback =
     (case map_of attrs name of
        None \<Rightarrow> fallback
      | Some v \<Rightarrow> if v \<noteq> [] then v else fallback)"

text \<open>\<open>querySelectorAll\<close> walks the element descendants in document order.\<close>

fun descendants :: "node list \<Rightarrow> node list" where
  "descendants [] = []"
| "descendants (TextNode t # ns) = descendants ns"
| "descendants (Element tg attrs cs # ns) = Element tg attrs cs # descendants cs @ descendants ns"

lemma descendants_size:
  "c \<in> set (descendants ns) \<Longrightarrow> size_list size (childNodes c) < size_list size ns"
  by (induction ns rule: descendants.induct) auto

subsection \<open>The pre-pass: mergeConsecutiveLists\<close>

text \<open>
  The loop walks \<open>container.children\<close>, the element children only, with \<open>current = children[i]\<close>
  and \<open>next = children[i + 1]\<close>. When both are \<open>OL\<close>, or both are \<open>UL\<close>, the child nodes of
  \<open>next\<close> are appended to \<open>current\<close>, \<open>next\<close> leaves the container and the array, and the
  same \<open>current\<close> meets the following element (\<open>i--\<close>, then \<open>i++\<close>); otherwise \<open>next\<close>
  becomes \<open>current\<close>. Below, \<open>mergeFrom current between rest\<close> returns the container's child
  nodes from \<open>current\<close> on: \<open>between\<close> holds the text nodes passed since \<open>current\<close>, which
  stay where they are in the container, and \<open>rest\<close> the child nodes not yet visited.
\<close>

definition sameListTag :: "jsstring \<Rightarrow> jsstring \<Rightarrow> bool" where
  "sameListTag currentTag nextTag \<longleftrightarrow>
     currentTag = js ''OL'' \<and> nextTag = js ''OL'' \<or> currentTag = js ''UL'' \<and> nextTag = js ''UL''"

fun appendChildren :: "node \<Rightarrow> node list \<Rightarrow> node" where
  "appendChildren (Element tg attrs cs) moved = Element tg attrs (cs @ moved)"
| "appendChildren (TextNode t) moved = TextNode t"



subsection \<open>Rendering: processNodes, processElement, processListItems, processTable\<close>

definition heading :: "nat \<Rightarrow> jsstring \<Rightarrow> jsstring" where
  "heading level content = NL # replicate level 35 @ SP # trim content @ [NL, NL]"

text \<open>Bold, italic, underline and strike-through keep one outer space on each side.\<close>

definition wrapInline :: "jsstring \<Rightarrow> jsstring \<Rightarrow> jsstring" where
  "wrapInline marker content =
     (let trimmed = trim content in
      if trimmed = [] then content
      else (if prefix [SP] content then [SP] else []) @ marker @ trimmed @ marker @
           (if suffix [SP] content then [SP] else []))"

fun joinWith :: "jsstring \<Rightarrow> jsstring list \<Rightarrow> jsstring" where
  "joinWith sep [] = []"
| "joinWith sep [l] = l"
| "joinWith sep (l # ls) = l @ sep @ joinWith sep ls"

text \<open>\<open>/\|/g\<close>, replaced by a backslash and the bar.\<close>

fun pipeMatch :: "jsstring \<Rightarrow> (jsstring \<times> jsstring) option" where
  "pipeMatch (c # cs) = (if c = 124 then Some ([92, 124], cs) else None)"
| "pipeMatch [] = None"

definition isRow :: "node \<Rightarrow> bool" where
  "isRow n \<longleftrightarrow> toLowerCase (tagName n) = js ''tr''"

definition isCell :: "node \<Rightarrow> bool" where
  "isCell n \<longleftrightarrow> toLowerCase (tagName n) = js ''th'' \<or> toLowerCase (tagName n) = js ''td''"

text \<open>The lines of a table from the contents of the cells of its rows.\<close>

fun tableLines :: "jsstring list list \<Rightarrow> bool \<Rightarrow> jsstring" where
  "tableLines [] isFirstRow = []"
| "tableLines (cellContents # rows) isFirstRow =
     js ''| '' @ joinWith (js '' | '') cellContents @ js '' |'' @ [NL] @
     (if isFirstRow
      then js ''| '' @ joinWith (js '' | '') (map (\<lambda>c. js ''---'') cellContents) @ js '' |'' @ [NL]
      else []) @
     tableLines rows False"

text \<open>
  \<open>processNodes\<close> and \<open>processElement\<close> take the tag name of the parent element, which the
  \<open>code\<close> case reads through \<open>parentElement\<close>. \<open>processListItems\<close> runs over the children of the
  list element with the counter \<open>itemNumber\<close>, which starts at 1 in every call of the source;
  \<open>processItem\<close> is its inner loop over the child nodes of one \<open>li\<close> and returns \<open>itemText\<close> and
  \<open>nestedLists\<close>. The \<open>table\<close> case holds \<open>processTable\<close>, which is \<open>tableLines\<close> of the cell
  contents.
\<close>

function processNodes :: "jsstring \<Rightarrow> node list \<Rightarrow> jsstring \<Rightarrow> jsstring"
  and processElement :: "jsstring \<Rightarrow> node \<Rightarrow> jsstring \<Rightarrow> jsstring"
  and processListItems :: "node list \<Rightarrow> jsstring \<Rightarrow> nat \<Rightarrow> nat \<Rightarrow> jsstring"
  and processItem :: "jsstring \<Rightarrow> node list \<Rightarrow> nat \<Rightarrow> jsstring \<times> jsstring"
  where
  "processNodes parent [] context = []"
| "processNodes parent (TextNode t # nodes) context = t @ processNodes parent nodes context"
| "processNodes parent (Element tg attrs cs # nodes) context =
     processElement parent (Element tg attrs cs) context @ processNodes parent nodes context"
| "processElement parent (TextNode t) context = []"
| "processElement parent (Element tg attrs cs) context =
     (let tag = toLowerCase tg;
          children = processNodes tg cs context
      in if tag = js ''h1'' then heading 1 children
         else if tag = js ''h2'' then heading 2 children
         else if tag = js ''h3'' then heading 3 children
         else if tag = js ''h4'' then heading 4 children
         else if tag = js ''h5'' then heading 5 children
         else if tag = js ''h6'' then heading 6 children
         else if tag = js ''p'' then
           (if trim children = [] then [] else trim children @ [NL, NL])
         else if tag = js ''strong'' \<or> tag = js ''b'' then wrapInline (js ''**'') children
         else if tag = js ''em'' \<or> tag = js ''i'' then wrapInline (js ''*'') children
         else if tag = js ''u'' then wrapInline (js ''_'') children
         else if tag = js ''s'' \<or> tag = js ''strike'' \<or> tag = js ''del''
           then wrapInline (js ''~~'') children
         else if tag = js ''code'' then
           (if toLowerCase parent = js ''pre'' then children else 96 # children @ [96])
         else if tag = js ''pre'' then
           NL # js ''```'' @ NL # trim children @ NL # js ''```'' @ [NL, NL]
         else if tag = js ''blockquote'' then
           NL # joinLines (map (\<lambda>line. js ''> '' @ line) (splitLines (trim children)))
             @ [NL, NL]
         else if tag = js ''ul'' then NL # processListItems cs (js ''ul'') 0 1 @ [NL]
         else if tag = js ''ol'' then NL # processListItems cs (js ''ol'') 0 1 @ [NL]
         else if tag = js ''li'' then children
         else if tag = js ''a'' then
           (let href = attributeOr attrs (js ''href'') [];
                linkText = trim children
            in if href \<noteq> [] then 91 # linkText @ js '']('' @ href @ js '')'' else linkText)
         else if tag = js ''img'' then
           (let src = attributeOr attrs (js ''src'') [];
                alt = attributeOr attrs (js ''alt'') (js ''Image'')
            in NL # js ''<p align=\"center\"><img src=\"'' @ src @ js ''\" alt=\"'' @ alt
                 @ js ''\" style=\"max-width: 100%;\"></p>'' @ [NL, NL])
         else if tag = js ''br'' then [NL]
         else if tag = js ''hr'' then NL # js ''---'' @ [NL, NL]
         else if tag = js ''table'' then
           NL # tableLines
                  (map (\<lambda>row.
                          map (\<lambda>cell.
                                 replaceAll pipeMatch
                                   (trim (processNodes (tagName cell) (childNodes cell) [])))
                            (filter isCell (descendants (childNodes row))))
                     (filter isRow (descendants cs)))
                  True @ [NL]
         else children)"
| "processListItems [] type depth itemNumber = []"
| "processListItems (TextNode t # children) type depth itemNumber =
     processListItems children type depth itemNumber"
| "processListItems (Element tg attrs cs # children) type depth itemNumber =
     (if toLowerCase tg = js ''li'' then
        (case processItem tg cs depth of
           (itemText, nestedLists) \<Rightarrow>
             concat (replicate depth (replicate 4 SP)) @
             (if type = js ''ul'' then js ''- '' else showNat itemNumber @ js ''. '') @
             trim itemText @ [NL] @ nestedLists @
             processListItems children type depth
               (if type = js ''ul'' then itemNumber else Suc itemNumber))
      else processListItems children type depth itemNumber)"
| "processItem liTag [] depth = ([], [])"
| "processItem liTag (TextNode t # nodes) depth =
     (case processItem liTag nodes depth of
        (itemText, nestedLists) \<Rightarrow> (t @ itemText, nestedLists))"
| "processItem liTag (Element tg attrs cs # nodes) depth =
     (case processItem liTag nodes depth of
        (itemText, nestedLists) \<Rightarrow>
          if toLowerCase tg = js ''ul''
            then (itemText, processListItems cs (js ''ul'') (Suc depth) 1 @ nestedLists)
          else if toLowerCase tg = js ''ol''
            then (itemText, processListItems cs (js ''ol'') (Suc depth) 1 @ nestedLists)
          else (processElement liTag (Element tg attrs cs) (js ''list'') @ itemText, nestedLists))"
  by pat_completeness auto
termination
  by (relation "measure (\<lambda>x. case x of
      Inl (Inl (p, ns, c)) \<Rightarrow> size_list size ns
    | Inl (Inr (p, n, c)) \<Rightarrow> size n
    | Inr (Inl (ns, t, d, k)) \<Rightarrow> size_list size ns
    | Inr (Inr (p, ns, d)) \<Rightarrow> size_list size ns)")
    (auto dest!: descendants_size)

subsection \<open>The top level: processNodesWithState and htmlToMarkdown\<close>




section \<open>Auxiliary predicates\<close>

text \<open>A string that neither starts nor ends with a white-space character.\<close>

definition trimmed :: "jsstring \<Rightarrow> bool" where
  "trimmed s \<longleftrightarrow> s = [] \<or> (\<not> isWhiteSpace (hd s) \<and> \<not> isWhiteSpace (last s))"

text \<open>A string without a tab and without two spaces in a row.\<close>

fun spaced :: "jsstring \<Rightarrow> bool" where
  "spaced [] = True"
| "spaced [c] = (c \<noteq> TAB)"
| "spaced (a # b # r) = (a \<noteq> TAB \<and> \<not> (a = SP \<and> b = SP) \<and> spaced (b # r))"

text \<open>
  A replacement text that cannot form a placeholder with the text around it: the
  placeholder prefix does not occur in it, it does not start with a character of the prefix
  behind the opening bracket and does not end with a character of the prefix.
\<close>

definition goodText :: "jsstring \<Rightarrow> bool" where
  "goodText w \<longleftrightarrow>
     \<not> occursIn placeholderPrefix w \<and>
     (w \<noteq> [] \<longrightarrow> hd w \<notin> set (tl placeholderPrefix) \<and> last w \<notin> set placeholderPrefix)"

definition goodStore :: "image_store \<Rightarrow> bool" where
  "goodStore store \<longleftrightarrow> (\<forall>ident v. store ident = Some v \<longrightarrow> goodText v)"

text \<open>
  The ids the collapse generates, \<open>img-\<close> and the text of a draw; the text of a draw is
  in base 36 (digits and lower-case letters).
\<close>

definition imgId :: "(nat \<Rightarrow> jsstring) \<Rightarrow> nat \<Rightarrow> jsstring" where
  "imgId rnd n = js ''img-'' @ rnd n"

definition base36Draws :: "(nat \<Rightarrow> jsstring) \<Rightarrow> bool" where
  "base36Draws rnd \<longleftrightarrow> (\<forall>n. \<forall>c\<in>set (rnd n). isDigit c \<or> isLower c)"

definition prefixFree :: "image_store \<Rightarrow> bool" where
  "prefixFree store \<longleftrightarrow> (\<forall>k v. store k = Some v \<longrightarrow> \<not> occursIn placeholderPrefix v)"

text \<open>Sample inputs: a sequence of distinct draws, and one image of each form.\<close>

definition sampleDraws :: "nat \<Rightarrow> jsstring" where
  "sampleDraws n = replicate (Suc n) 97"

definition sampleHtmlImage :: jsstring where
  "sampleHtmlImage = js ''<p><img src=\"data:image/png;base64,A\"></p>''"

definition sampleMdImage :: jsstring where
  "sampleMdImage = js ''![a](data:image/png;base64,B)''"

definition emptyCollapseState :: collapse_state where
  "emptyCollapseState = \<lparr>imageStore = Map.empty, draws = 0\<rparr>"

text \<open>
  \<open>collapsedFrom store y x\<close>: \<open>y\<close> is \<open>x\<close> with some stretches replaced by placeholders
  whose ids are stored with the stretch, and the placeholder prefix starts nowhere else
  in \<open>y\<close>. \<open>imageMatcher\<close> is what the proof uses of the two image patterns: a match
  starts with \<open><\<close> or \<open>!\<close> and ends with \<open>>\<close> or \<open>)\<close>.
\<close>

definition idOk :: "jsstring \<Rightarrow> bool" where
  "idOk ident \<longleftrightarrow> ident \<noteq> [] \<and> (\<forall>c\<in>set ident. isLower c \<or> isDigit c \<or> c = 45)"

inductive collapsedFrom :: "image_store \<Rightarrow> jsstring \<Rightarrow> jsstring \<Rightarrow> bool"
  for store :: image_store where
  nil: "collapsedFrom store [] []"
| chr: "collapsedFrom store y x \<Longrightarrow> \<not> prefix placeholderPrefix (c # y)
         \<Longrightarrow> collapsedFrom store (c # y) (c # x)"
| tok: "collapsedFrom store y x \<Longrightarrow> store ident = Some v \<Longrightarrow> v \<noteq> [] \<Longrightarrow> idOk ident
         \<Longrightarrow> collapsedFrom store (placeholder ident @ y) (v @ x)"

definition imageMatcher :: "(jsstring \<Rightarrow> jsstring option) \<Rightarrow> bool" where
  "imageMatcher m \<longleftrightarrow>
     (\<forall>t rest. m t = Some rest \<longrightarrow>
        (\<exists>mt. t = mt @ rest \<and> mt \<noteq> [] \<and> (hd mt = 60 \<or> hd mt = 33) \<and>
              (last mt = 62 \<or> last mt = 41)))"

text \<open>A string with a character that is not white space.\<close>

definition nonBlank :: "jsstring \<Rightarrow> bool" where
  "nonBlank s \<longleftrightarrow> (\<exists>c\<in>set s. \<not> isWhiteSpace c)"

text \<open>
  The run that \<open>extractTextBlocks\<close> keeps of an item, and the block with one more run.
\<close>

definition baseline :: "text_item \<Rightarrow> rat" where
  "baseline item = (case ti_transform item of (a0, a1, a2, a3, a4, a5) \<Rightarrow> a5)"

definition glyphOf :: "text_item \<Rightarrow> glyph" where
  "glyphOf item =
     \<lparr>g_str = ti_str item,
      g_x = (case ti_transform item of (a0, a1, a2, a3, a4, a5) \<Rightarrow> a4),
      g_y = baseline item, g_fontSize = mathRound (ti_height item),
      g_fontName = ti_fontName item\<rparr>"

definition addRun :: "text_block \<Rightarrow> text_item \<Rightarrow> text_block" where
  "addRun block item =
     block\<lparr>tb_items := tb_items block @ [glyphOf item],
           tb_minY := Some (case tb_minY block of None \<Rightarrow> baseline item
                            | Some m \<Rightarrow> min m (baseline item)),
           tb_maxY := Some (case tb_maxY block of None \<Rightarrow> baseline item
                            | Some m \<Rightarrow> max m (baseline item))\<rparr>"

text \<open>
  A paragraph run: height 11 and a text that is not blank. \<open>closeRuns lastY items\<close>: no
  run is further from the run before it (the first from \<open>lastY\<close>) than 1.5 times its
  font size, with the gap and the limit as the source computes them.
\<close>

definition paragraphRun :: "text_item \<Rightarrow> bool" where
  "paragraphRun item \<longleftrightarrow> ti_height item = 11 \<and> trim (ti_str item) \<noteq> []"

fun closeRuns :: "rat \<Rightarrow> text_item list \<Rightarrow> bool" where
  "closeRuns lastY [] \<longleftrightarrow> True"
| "closeRuns lastY (item # items) \<longleftrightarrow>
     \<not> gapExceeds (baseline item) lastY (roundDouble (mathRound (ti_height item) * (3 / 2))) \<and>
     closeRuns (baseline item) items"





section \<open>Results: the transform stack\<close>

lemma opStep_nonempty:
  assumes "ctmStack st \<noteq> []"
  shows "\<exists>st'. opStep st op = Inr st' \<and> ctmStack st' \<noteq> []"
proof (cases op)
  case Restore
  show ?thesis
  proof (cases "length (ctmStack st) > 1")
    case True
    then have "butlast (ctmStack st) \<noteq> []"
      by (cases "ctmStack st" rule: rev_cases) auto
    with True Restore show ?thesis by simp
  next
    case False
    with assms Restore show ?thesis by simp
  qed
qed (use assms in \<open>auto simp: paintImage_def Let_def split: prod.splits\<close>)

lemma scanOps_nonempty:
  "ctmStack st \<noteq> [] \<Longrightarrow> \<exists>st'. scanOps ops st = Inr st' \<and> ctmStack st' \<noteq> []"
proof (induction ops arbitrary: st)
  case Nil
  then show ?case by simp
next
  case (Cons op ops)
  from opStep_nonempty [OF Cons.prems] obtain st1
    where st1: "opStep st op = Inr st1" "ctmStack st1 \<noteq> []" by blast
  from Cons.IH [OF st1(2)] st1(1) show ?case by simp
qed

text \<open>
  C8. Scanning any operator list from the identity-seeded stack never throws, and after
  every prefix of the list (that is, at every point of the scan) the stack holds at least
  one matrix: a restore on a one-entry stack is ignored.
\<close>

theorem ctmStack_never_empty:
  "\<exists>st. scanOps (take n ops) initialScan = Inr st \<and> 1 \<le> length (ctmStack st)"
proof -
  have "ctmStack initialScan \<noteq> []" by (simp add: initialScan_def)
  from scanOps_nonempty [OF this, of "take n ops"] obtain st
    where "scanOps (take n ops) initialScan = Inr st" "ctmStack st \<noteq> []" by blast
  then show ?thesis by (cases "ctmStack st") auto
qed

text \<open>
  C7. For save, transform by a translation, paint \<open>ref1\<close>, restore, paint \<open>ref2\<close>, from
  the identity matrix, the scan records the translation's vertical offset for \<open>ref1\<close>
  and 0 for \<open>ref2\<close>, and ends with the one-entry identity stack. The image names are
  the distinct, non-empty references of the operator list.
\<close>

theorem save_transform_restore_positions:
  assumes "ref1 \<noteq> []" and "ref2 \<noteq> []" and "ref1 \<noteq> ref2"
  shows "scanOps [Save, Transform (1, 0, 0, 1, dx, dy), PaintImageXObject ref1,
                  Restore, PaintImageXObject ref2] initialScan
         = Inr \<lparr>ctmStack = [identityMatrix],
                imageOps = [\<lparr>io_name = ref1, io_y = dy\<rparr>, \<lparr>io_name = ref2, io_y = 0\<rparr>]\<rparr>"
  using assms by (simp add: initialScan_def identityMatrix_def paintImage_def Let_def)

theorem save_transform_restore_positions_witness:
  "js ''ref1'' \<noteq> [] \<and> js ''ref2'' \<noteq> [] \<and> js ''ref1'' \<noteq> js ''ref2'' \<and>
   scanOps [Save, Transform (1, 0, 0, 1, 0, 100), PaintImageXObject (js ''ref1''),
            Restore, PaintImageXObject (js ''ref2'')] initialScan
     = Inr \<lparr>ctmStack = [identityMatrix],
            imageOps = [\<lparr>io_name = js ''ref1'', io_y = 100\<rparr>,
                        \<lparr>io_name = js ''ref2'', io_y = 0\<rparr>]\<rparr>"
proof -
  have h: "js ''ref1'' \<noteq> []" "js ''ref2'' \<noteq> []" "js ''ref1'' \<noteq> js ''ref2''"
    by (simp_all add: js_def)
  from save_transform_restore_positions [OF h, of 0 100] h show ?thesis by simp
qed

section \<open>Results: the post-formatter\<close>

lemma last_dropWhile_ne: "dropWhile P xs \<noteq> [] \<Longrightarrow> last (dropWhile P xs) = last xs"
proof -
  assume a: "dropWhile P xs \<noteq> []"
  have "last xs = last (takeWhile P xs @ dropWhile P xs)" by simp
  also have "\<dots> = last (dropWhile P xs)" using a by (simp only: last_append if_False)
  finally show ?thesis by simp
qed

lemma trimmed_trim: "trimmed (trim s)"
proof -
  define t where "t = dropWhile isWhiteSpace s"
  define u where "u = dropWhile isWhiteSpace (rev t)"
  have tr: "trim s = rev u" by (simp add: trim_def t_def u_def)
  show ?thesis
  proof (cases "u = []")
    case True
    then show ?thesis by (simp add: tr trimmed_def)
  next
    case False
    then have hu: "\<not> isWhiteSpace (hd u)" unfolding u_def by (rule hd_dropWhile)
    from False have tne: "t \<noteq> []" by (auto simp: u_def)
    have "last u = last (rev t)" using False unfolding u_def by (rule last_dropWhile_ne)
    also have "\<dots> = hd t" using tne by (simp add: last_rev)
    finally have lu: "last u = hd t" .
    have "\<not> isWhiteSpace (hd t)" using tne unfolding t_def by (rule hd_dropWhile)
    with lu hu False show ?thesis by (simp add: tr trimmed_def hd_rev last_rev)
  qed
qed

lemma trim_id: "trimmed s \<Longrightarrow> trim s = s"
proof (cases "s = []")
  case True
  then show ?thesis by (simp add: trim_def)
next
  case False
  assume "trimmed s"
  with False have h: "\<not> isWhiteSpace (hd s)" "\<not> isWhiteSpace (last s)"
    by (auto simp: trimmed_def)
  from h(1) False have a: "dropWhile isWhiteSpace s = s" by (cases s) auto
  from h(2) False have b: "dropWhile isWhiteSpace (rev s) = rev s"
    by (cases "rev s") (auto simp: last_rev [symmetric] hd_rev)
  show ?thesis by (simp add: trim_def a b)
qed

lemma trim_idem: "trim (trim s) = trim s"
  by (rule trim_id) (rule trimmed_trim)

lemma set_trim: "set (trim s) \<subseteq> set s"
proof -
  have "set (trim s) = set (dropWhile isWhiteSpace (rev (dropWhile isWhiteSpace s)))"
    by (simp add: trim_def)
  also have "\<dots> \<subseteq> set (rev (dropWhile isWhiteSpace s))" by (rule set_dropWhileD [THEN subsetI]) 
  also have "\<dots> \<subseteq> set s" using set_dropWhileD [of _ isWhiteSpace s] by auto
  finally show ?thesis .
qed

lemma joinLines_Cons: "joinLines (l # ls) = (if ls = [] then l else l @ NL # joinLines ls)"
  by (cases ls) auto

lemma splitLines_ne: "splitLines s \<noteq> []"
  by (induction s) (auto split: list.splits)

lemma join_split: "joinLines (splitLines s) = s"
proof (induction s)
  case Nil
  then show ?case by simp
next
  case (Cons c cs)
  obtain l ls where sp: "splitLines cs = l # ls" using splitLines_ne [of cs] by (cases "splitLines cs") auto
  with Cons show ?case by (auto simp: joinLines_Cons split: if_splits)
qed

lemma split_lines_no_NL: "l \<in> set (splitLines s) \<Longrightarrow> NL \<notin> set l"
proof (induction s arbitrary: l)
  case Nil
  then show ?case by simp
next
  case (Cons c cs)
  obtain l0 ls where sp: "splitLines cs = l0 # ls" using splitLines_ne [of cs] by (cases "splitLines cs") auto
  with Cons show ?case by (auto split: if_splits)
qed

lemma split_no_NL: "NL \<notin> set l \<Longrightarrow> splitLines l = [l]"
  by (induction l) auto

lemma split_append_NL: "NL \<notin> set l \<Longrightarrow> splitLines (l @ NL # s) = l # splitLines s"
  by (induction l) auto

lemma split_join: "ls \<noteq> [] \<Longrightarrow> \<forall>l\<in>set ls. NL \<notin> set l \<Longrightarrow> splitLines (joinLines ls) = ls"
proof (induction ls)
  case Nil
  then show ?case by simp
next
  case (Cons l ls)
  show ?case
  proof (cases "ls = []")
    case True
    with Cons.prems show ?thesis by (simp add: split_no_NL)
  next
    case False
    with Cons show ?thesis by (simp add: joinLines_Cons split_append_NL)
  qed
qed


lemma trimmed_rev: "trimmed (rev l) = trimmed l"
  by (cases "l = []") (auto simp: trimmed_def hd_rev last_rev)

lemma dropWhile_ws_join:
  "\<forall>l\<in>set ls. trimmed l \<Longrightarrow>
     dropWhile isWhiteSpace (joinLines ls) = joinLines (dropWhile (\<lambda>l. l = []) ls)"
proof (induction ls)
  case Nil
  then show ?case by simp
next
  case (Cons l ls)
  show ?case
  proof (cases "l = []")
    case True
    with Cons show ?thesis by (cases "ls = []") (simp_all add: joinLines_Cons isWhiteSpace_def)
  next
    case False
    with Cons.prems have "\<not> isWhiteSpace (hd l)" by (simp add: trimmed_def)
    with False have "dropWhile isWhiteSpace (l @ r) = l @ r" for r by (cases l) auto
    from this [of "[]"] this [of "NL # joinLines ls"] False show ?thesis
      by (simp add: joinLines_Cons)
  qed
qed

lemma joinLines_snoc: "joinLines (ls @ [l]) = (if ls = [] then l else joinLines ls @ NL # l)"
  by (induction ls) (auto simp: joinLines_Cons)

lemma rev_joinLines: "rev (joinLines ls) = joinLines (rev (map rev ls))"
  by (induction ls) (auto simp: joinLines_Cons joinLines_snoc)

lemma trim_joinLines:
  assumes "\<forall>l\<in>set ls. trimmed l"
  shows "\<exists>ls'. trim (joinLines ls) = joinLines ls' \<and> set ls' \<subseteq> set ls"
proof -
  define ls1 where "ls1 = dropWhile (\<lambda>l. l = []) ls"
  have s1: "set ls1 \<subseteq> set ls" unfolding ls1_def using set_dropWhileD by fastforce
  have e1: "dropWhile isWhiteSpace (joinLines ls) = joinLines ls1"
    unfolding ls1_def using assms by (rule dropWhile_ws_join)
  define ls2 where "ls2 = dropWhile (\<lambda>l. l = []) (rev (map rev ls1))"
  have s2: "set ls2 \<subseteq> rev ` set ls1" unfolding ls2_def using set_dropWhileD by fastforce
  have "\<forall>l\<in>set (rev (map rev ls1)). trimmed l" using assms s1 by (auto simp: trimmed_rev)
  then have e2: "dropWhile isWhiteSpace (joinLines (rev (map rev ls1))) = joinLines ls2"
    unfolding ls2_def by (rule dropWhile_ws_join)
  have "trim (joinLines ls) = rev (joinLines ls2)"
    by (simp add: trim_def e1 rev_joinLines e2)
  also have "\<dots> = joinLines (rev (map rev ls2))" by (rule rev_joinLines)
  finally have "trim (joinLines ls) = joinLines (rev (map rev ls2))" .
  moreover have "set (rev (map rev ls2)) \<subseteq> set ls" using s2 s1 by fastforce
  ultimately show ?thesis by blast
qed

lemma lines_of_trim_join:
  assumes "\<forall>l\<in>set ls. trimmed l \<and> NL \<notin> set l"
  shows "\<forall>l\<in>set (splitLines (trim (joinLines ls))). trimmed l"
proof -
  from assms have "\<forall>l\<in>set ls. trimmed l" by simp
  from trim_joinLines [OF this] obtain ls' where
    e: "trim (joinLines ls) = joinLines ls'" and s: "set ls' \<subseteq> set ls" by blast
  show ?thesis
  proof (cases "ls' = []")
    case True
    then show ?thesis by (simp add: e trimmed_def)
  next
    case False
    from s assms have "\<forall>l\<in>set ls'. NL \<notin> set l" by auto
    with False have "splitLines (joinLines ls') = ls'" by (rule split_join)
    with s assms show ?thesis by (auto simp: e)
  qed
qed

lemma spaced_Cons: "spaced (a # s) = (a \<noteq> TAB \<and> (s = [] \<or> \<not> (a = SP \<and> hd s = SP)) \<and> spaced s)"
  by (cases s) auto

lemma spaced_appendD: "spaced (a @ b) \<Longrightarrow> spaced a \<and> spaced b"
proof (induction a)
  case Nil
  then show ?case by simp
next
  case (Cons x a)
  then show ?case by (cases a) (auto simp: spaced_Cons)
qed

lemma spaced_append:
  "spaced a \<Longrightarrow> spaced b \<Longrightarrow> a = [] \<or> b = [] \<or> last a \<noteq> SP \<or> hd b \<noteq> SP \<Longrightarrow> spaced (a @ b)"
proof (induction a)
  case Nil
  then show ?case by simp
next
  case (Cons x a)
  then show ?case by (cases a) (auto simp: spaced_Cons)
qed

lemma spacingMatch_Cons:
  "replaceAll spacingMatch (c # cs) =
     (if c = SP \<or> c = TAB
      then SP # replaceAll spacingMatch (dropWhile (\<lambda>c. c = SP \<or> c = TAB) cs)
      else c # replaceAll spacingMatch cs)"
  using length_dropWhile_le [of "\<lambda>c. c = SP \<or> c = TAB" cs] by (simp add: less_Suc_eq_le)

lemma hd_replaceAll_spacing:
  "s \<noteq> [] \<Longrightarrow> \<not> (hd s = SP \<or> hd s = TAB) \<Longrightarrow> hd (replaceAll spacingMatch s) = hd s"
  by (cases s) (auto simp: spacingMatch_Cons simp del: replaceAll.simps(2))

lemma replaceAll_Nil_iff: "replaceAll spacingMatch s = [] \<longleftrightarrow> s = []"
  by (cases s) (auto simp: spacingMatch_Cons simp del: replaceAll.simps(2))

lemma spaced_replaceAll: "spaced (replaceAll spacingMatch s)"
proof (induction s rule: length_induct)
  case (1 s)
  show ?case
  proof (cases s)
    case Nil
    then show ?thesis by simp
  next
    case (Cons c cs)
    show ?thesis
    proof (cases "c = SP \<or> c = TAB")
      case True
      define d where "d = dropWhile (\<lambda>c. c = SP \<or> c = TAB) cs"
      have "length d < length s" unfolding d_def Cons
        using length_dropWhile_le [of "\<lambda>c. c = SP \<or> c = TAB" cs] by simp
      with 1 have sp: "spaced (replaceAll spacingMatch d)" by blast
      have hd: "d = [] \<or> \<not> (hd d = SP \<or> hd d = TAB)"
        unfolding d_def using hd_dropWhile [of "\<lambda>c. c = SP \<or> c = TAB" cs] by blast
      then have "replaceAll spacingMatch d = [] \<or> hd (replaceAll spacingMatch d) \<noteq> SP"
        using hd_replaceAll_spacing [of d] by (auto simp: replaceAll_Nil_iff)
      with sp True show ?thesis
        unfolding Cons
        by (auto simp: spacingMatch_Cons spaced_Cons d_def [symmetric] simp del: replaceAll.simps(2))
    next
      case False
      have "length cs < length s" by (simp add: Cons)
      with 1 have sp: "spaced (replaceAll spacingMatch cs)" by blast
      with False show ?thesis unfolding Cons
        by (auto simp: spacingMatch_Cons spaced_Cons simp del: replaceAll.simps(2))
    qed
  qed
qed

lemma replaceAll_spaced: "spaced s \<Longrightarrow> replaceAll spacingMatch s = s"
proof (induction s)
  case Nil
  then show ?case by simp
next
  case (Cons c cs)
  then have sp: "spaced cs" and c: "c \<noteq> TAB" and n: "cs = [] \<or> \<not> (c = SP \<and> hd cs = SP)"
    by (auto simp: spaced_Cons)
  show ?case
  proof (cases "c = SP")
    case True
    with n sp have "dropWhile (\<lambda>c. c = SP \<or> c = TAB) cs = cs"
      by (cases cs) (auto simp: spaced_Cons)
    with True Cons.IH [OF sp] show ?thesis
      by (simp add: spacingMatch_Cons del: replaceAll.simps(2))
  next
    case False
    with c Cons.IH [OF sp] show ?thesis
      by (simp add: spacingMatch_Cons del: replaceAll.simps(2))
  qed
qed

lemma trim_infix: "\<exists>p q. s = p @ trim s @ q"
proof -
  define t where "t = dropWhile isWhiteSpace s"
  define u where "u = dropWhile isWhiteSpace (rev t)"
  have a: "s = takeWhile isWhiteSpace s @ t" by (simp add: t_def)
  have "rev t = takeWhile isWhiteSpace (rev t) @ u" by (simp add: u_def)
  then have "rev (rev t) = rev (takeWhile isWhiteSpace (rev t) @ u)" by simp
  then have b: "t = rev u @ rev (takeWhile isWhiteSpace (rev t))" by simp
  have "trim s = rev u" by (simp add: trim_def t_def u_def)
  with a b show ?thesis by metis
qed

lemma spaced_trim: "spaced s \<Longrightarrow> spaced (trim s)"
proof -
  assume a: "spaced s"
  obtain p q where "s = p @ trim s @ q" using trim_infix by blast
  with a have "spaced (p @ trim s @ q)" by simp
  then show ?thesis using spaced_appendD by blast
qed

lemma spaced_joinLines: "(\<forall>l\<in>set ls. spaced l) \<Longrightarrow> spaced (joinLines ls)"
proof (induction ls)
  case Nil
  then show ?case by simp
next
  case (Cons l ls)
  show ?case
  proof (cases "ls = []")
    case True
    with Cons show ?thesis by simp
  next
    case False
    from Cons have "spaced (joinLines ls)" "spaced l" by auto
    then have "spaced (NL # joinLines ls)" by (simp add: spaced_Cons)
    with \<open>spaced l\<close> have "spaced (l @ NL # joinLines ls)" by (rule spaced_append) simp
    with False show ?thesis by (simp add: joinLines_Cons)
  qed
qed

lemma spaced_lines: "spaced (joinLines ls) \<Longrightarrow> \<forall>l\<in>set ls. spaced l"
proof (induction ls)
  case Nil
  then show ?case by simp
next
  case (Cons l ls)
  show ?case
  proof (cases "ls = []")
    case True
    with Cons show ?thesis by simp
  next
    case False
    with Cons.prems have "spaced (l @ NL # joinLines ls)" by (simp add: joinLines_Cons)
    then have "spaced l" "spaced (NL # joinLines ls)" using spaced_appendD by blast+
    then have "spaced l" "spaced (joinLines ls)" using spaced_appendD [of "[NL]" "joinLines ls"] by auto
    with Cons.IH show ?thesis by simp
  qed
qed

lemma matchesAnywhere_iff: "matchesAnywhere m s \<longleftrightarrow> (\<exists>t. suffix t s \<and> m t \<noteq> None)"
  by (auto simp: matchesAnywhere_def list_ex_iff)

lemma matchesAnywhere_Cons:
  "matchesAnywhere m (c # cs) \<longleftrightarrow> m (c # cs) \<noteq> None \<or> matchesAnywhere m cs"
  unfolding matchesAnywhere_iff suffix_Cons by blast

lemma replaceAll_no_match: "\<not> matchesAnywhere m s \<Longrightarrow> replaceAll m s = s"
proof (induction s)
  case Nil
  then show ?case by simp
next
  case (Cons c cs)
  from Cons.prems have "m (c # cs) = None" and "\<not> matchesAnywhere m cs"
    unfolding matchesAnywhere_Cons by blast+
  with Cons.IH show ?case by simp
qed

text \<open>
  C1 fails as stated: trimming the lines comes after the blank-line pattern, so lines that
  hold only spaces leave three newlines in a row behind, which a second pass collapses.
  For \<open>a\<close>, newline, space, newline, space, newline, \<open>b\<close> the first pass gives
  \<open>a\<close>, three newlines, \<open>b\<close> and the second pass \<open>a\<close>, two newlines, \<open>b\<close>.
\<close>

theorem formatMarkdown_not_idempotent:
  "formatMarkdown (formatMarkdown (js ''a'' @ [NL, SP, NL, SP, NL] @ js ''b''))
     \<noteq> formatMarkdown (js ''a'' @ [NL, SP, NL, SP, NL] @ js ''b'')"
  by (simp add: formatMarkdown_def js_def trim_def isWhiteSpace_def)

text \<open>
  C1, amended. The formatter's output is a fixed point of the spacing and trimming steps,
  so formatting it again changes nothing whenever the first two patterns (three or more
  newlines; a word character, a hyphen, a newline and a word character) match nowhere in
  it.
\<close>

theorem formatMarkdown_idempotent_when_settled:
  assumes "\<not> matchesAnywhere blankLinesMatch (formatMarkdown x)"
      and "\<not> matchesAnywhere brokenWordMatch (formatMarkdown x)"
  shows "formatMarkdown (formatMarkdown x) = formatMarkdown x"
proof -
  define s3 where
    "s3 = replaceAll spacingMatch (replaceAll brokenWordMatch (replaceAll blankLinesMatch x))"
  define ls where "ls = map trim (splitLines s3)"
  define y where "y = formatMarkdown x"
  have y: "y = trim (joinLines ls)" by (simp add: y_def formatMarkdown_def ls_def s3_def)
  have "spaced s3" unfolding s3_def by (rule spaced_replaceAll)
  then have "spaced (joinLines (splitLines s3))" by (simp add: join_split)
  then have "\<forall>l\<in>set (splitLines s3). spaced l" by (rule spaced_lines)
  then have "\<forall>l\<in>set ls. spaced l" by (simp add: ls_def spaced_trim)
  then have "spaced (joinLines ls)" by (rule spaced_joinLines)
  then have spy: "spaced y" unfolding y by (rule spaced_trim)
  have "\<forall>l\<in>set ls. trimmed l \<and> NL \<notin> set l"
    unfolding ls_def using set_trim split_lines_no_NL by (fastforce simp: trimmed_trim)
  then have "\<forall>l\<in>set (splitLines y). trimmed l" unfolding y by (rule lines_of_trim_join)
  then have ly: "map trim (splitLines y) = splitLines y" by (simp add: map_idI trim_id)
  have ty: "trim y = y" unfolding y by (rule trim_idem)
  have r1: "replaceAll blankLinesMatch y = y"
    using assms(1) unfolding y_def by (rule replaceAll_no_match)
  have r2: "replaceAll brokenWordMatch y = y"
    using assms(2) unfolding y_def by (rule replaceAll_no_match)
  have r3: "replaceAll spacingMatch y = y" using spy by (rule replaceAll_spaced)
  have "formatMarkdown y = y"
    by (simp add: formatMarkdown_def r1 r2 r3 ly join_split ty)
  then show ?thesis by (simp add: y_def)
qed



theorem formatMarkdown_idempotent_when_settled_witness:
  "\<not> matchesAnywhere blankLinesMatch
       (formatMarkdown (js ''  a  b '' @ [NL, NL, NL, NL] @ js '' c'')) \<and>
   \<not> matchesAnywhere brokenWordMatch
       (formatMarkdown (js ''  a  b '' @ [NL, NL, NL, NL] @ js '' c'')) \<and>
   formatMarkdown (formatMarkdown (js ''  a  b '' @ [NL, NL, NL, NL] @ js '' c''))
     = formatMarkdown (js ''  a  b '' @ [NL, NL, NL, NL] @ js '' c'')"
proof -
  have e: "formatMarkdown (js ''  a  b '' @ [NL, NL, NL, NL] @ js '' c'')
             = [97, SP, 98, NL, NL, 99]"
    by (simp add: formatMarkdown_def js_def trim_def isWhiteSpace_def)
  have h1: "\<not> matchesAnywhere blankLinesMatch
                (formatMarkdown (js ''  a  b '' @ [NL, NL, NL, NL] @ js '' c''))"
    unfolding e by (simp add: matchesAnywhere_def)
  have h2: "\<not> matchesAnywhere brokenWordMatch
                (formatMarkdown (js ''  a  b '' @ [NL, NL, NL, NL] @ js '' c''))"
    unfolding e by (simp add: matchesAnywhere_def isWordChar_def)
  from formatMarkdown_idempotent_when_settled [OF h1 h2] h1 h2 show ?thesis by simp
qed

section \<open>Results: restoring images\<close>

lemma expect_Some_iff: "expect lit s = Some r \<longleftrightarrow> s = lit @ r"
  by (induction lit s rule: expect.induct) auto

lemma expect_append [simp]: "expect lit (lit @ r) = Some r"
  by (simp add: expect_Some_iff)

lemma prefix_expect: "prefix lit s \<longleftrightarrow> expect lit s \<noteq> None"
  by (auto simp: prefix_def expect_Some_iff)

lemma occursIn_Nil [simp]: "occursIn p [] \<longleftrightarrow> p = []"
  by (simp add: occursIn_def)

lemma occursIn_Cons: "occursIn p (c # cs) \<longleftrightarrow> prefix p (c # cs) \<or> occursIn p cs"
  by (auto simp: occursIn_def)

lemma occursIn_appendI2: "occursIn p b \<Longrightarrow> occursIn p (a @ b)"
  by (induction a) (auto simp: occursIn_Cons)

lemma occursIn_prefix: "prefix p s \<Longrightarrow> occursIn p s"
  by (cases s) (auto simp: occursIn_Cons)

lemma occursIn_appendI1: "occursIn p a \<Longrightarrow> occursIn p (a @ b)"
proof (induction a)
  case Nil
  then show ?case by (simp add: occursIn_prefix)
next
  case (Cons c a)
  from Cons.prems consider "prefix p (c # a)" | "occursIn p a" by (auto simp: occursIn_Cons)
  then show ?case
  proof cases
    case 1
    then have "prefix p ((c # a) @ b)" by (rule prefix_prefix)
    then show ?thesis by (simp add: occursIn_Cons)
  next
    case 2
    with Cons.IH show ?thesis by (simp add: occursIn_Cons)
  qed
qed

lemma prefix_hd: "placeholderPrefix = 91 # tl placeholderPrefix"
  by (simp add: placeholderPrefix_def)

lemma prefix_tl_no_open: "91 \<notin> set (tl placeholderPrefix)"
  by (simp add: placeholderPrefix_def cameraSign_def js_def)

lemma prefix_no_close: "93 \<notin> set placeholderPrefix"
  by (simp add: placeholderPrefix_def cameraSign_def js_def)

lemma takeWhile_stop: "\<forall>x\<in>set a. P x \<Longrightarrow> \<not> P b \<Longrightarrow> takeWhile P (a @ b # r) = a"
  by (induction a) auto

lemma dropWhile_stop: "\<forall>x\<in>set a. P x \<Longrightarrow> \<not> P b \<Longrightarrow> dropWhile P (a @ b # r) = b # r"
  by (induction a) auto

lemma placeholderMatch_iff:
  "placeholderMatch s = Some (ident, rest) \<longleftrightarrow>
     s = placeholderPrefix @ ident @ 93 # rest \<and> ident \<noteq> [] \<and> 93 \<notin> set ident"
proof
  assume a: "placeholderMatch s = Some (ident, rest)"
  then obtain s1 where s1: "expect placeholderPrefix s = Some s1"
    by (auto simp: placeholderMatch_def split: bind_splits)
  with a have i: "ident = takeWhile (\<lambda>c. c \<noteq> 93) s1" and ne: "ident \<noteq> []"
    and e: "expect [93] (dropWhile (\<lambda>c. c \<noteq> 93) s1) = Some rest"
    by (auto simp: placeholderMatch_def Let_def split: bind_splits if_splits)
  from e have d: "dropWhile (\<lambda>c. c \<noteq> 93) s1 = 93 # rest" by (simp add: expect_Some_iff)
  have "s1 = takeWhile (\<lambda>c. c \<noteq> 93) s1 @ dropWhile (\<lambda>c. c \<noteq> 93) s1" by simp
  with i d have "s1 = ident @ 93 # rest" by simp
  moreover from s1 have "s = placeholderPrefix @ s1" by (simp add: expect_Some_iff)
  moreover have "93 \<notin> set ident" unfolding i using set_takeWhileD by fastforce
  ultimately show "s = placeholderPrefix @ ident @ 93 # rest \<and> ident \<noteq> [] \<and> 93 \<notin> set ident"
    using ne by simp
next
  assume a: "s = placeholderPrefix @ ident @ 93 # rest \<and> ident \<noteq> [] \<and> 93 \<notin> set ident"
  then have t: "takeWhile (\<lambda>c. c \<noteq> 93) (ident @ 93 # rest) = ident"
    and d: "dropWhile (\<lambda>c. c \<noteq> 93) (ident @ 93 # rest) = 93 # rest"
    by (auto intro!: takeWhile_stop dropWhile_stop)
  from a show "placeholderMatch s = Some (ident, rest)"
    by (simp add: placeholderMatch_def t d)
qed

lemma placeholderMatch_prefix: "placeholderMatch s \<noteq> None \<Longrightarrow> prefix placeholderPrefix s"
  by (cases "placeholderMatch s") (auto simp: placeholderMatch_iff)

lemma placeholderMatch_close: "placeholderMatch s \<noteq> None \<Longrightarrow> 93 \<in> set s"
  by (cases "placeholderMatch s") (auto simp: placeholderMatch_iff)

lemma matchedText_append [simp]: "matchedText (m @ rest) rest = m"
  by (simp add: matchedText_def)

lemma restore_Nil [simp]: "restoreImages store [] = []"
  by (simp add: restoreImages_def)

lemma restore_char:
  "placeholderMatch (c # cs) = None \<Longrightarrow>
     restoreImages store (c # cs) = c # restoreImages store cs"
  by (simp add: restoreImages_def restoreMatch_def)

lemma restore_token:
  assumes "ident \<noteq> []" and "93 \<notin> set ident"
  shows "restoreImages store (placeholder ident @ rest)
           = storedOrMatch store ident (placeholder ident) @ restoreImages store rest"
proof -
  have m: "placeholderMatch (placeholder ident @ rest) = Some (ident, rest)"
    using assms by (simp add: placeholderMatch_iff placeholder_def)
  have mt: "matchedText (placeholder ident @ rest) rest = placeholder ident" by simp
  obtain c cs where c: "placeholder ident @ rest = c # cs"
    by (cases "placeholder ident @ rest") (auto simp: placeholder_def placeholderPrefix_def)
  have l: "length rest < length (c # cs)"
    unfolding c [symmetric] by (simp add: placeholder_def)
  show ?thesis
    unfolding restoreImages_def c
    using m mt l unfolding c by (simp add: restoreMatch_def)
qed

lemma restore_cases:
  obtains (nil) "t = []"
  | (char) c cs where "t = c # cs" "placeholderMatch t = None"
  | (token) ident rest where "t = placeholder ident @ rest" "ident \<noteq> []" "93 \<notin> set ident"
proof (cases t)
  case Nil
  then show ?thesis by (rule nil)
next
  case (Cons c cs)
  show ?thesis
  proof (cases "placeholderMatch t")
    case None
    with Cons show ?thesis by (rule char)
  next
    case (Some a)
    obtain ident rest where "a = (ident, rest)" by (cases a)
    with Some have "t = placeholder ident @ rest" "ident \<noteq> []" "93 \<notin> set ident"
      by (auto simp: placeholderMatch_iff placeholder_def)
    then show ?thesis by (rule token)
  qed
qed

lemma restore_no_open: "91 \<notin> set q \<Longrightarrow> restoreImages store (q @ t) = q @ restoreImages store t"
proof (induction q)
  case Nil
  then show ?case by simp
next
  case (Cons c q)
  have "\<not> prefix placeholderPrefix (c # q @ t)"
    using Cons.prems by (subst prefix_hd) auto
  then have "placeholderMatch (c # q @ t) = None"
    using placeholderMatch_prefix by blast
  with Cons show ?case by (simp add: restore_char)
qed

lemma restore_no_close: "93 \<notin> set t \<Longrightarrow> restoreImages store t = t"
proof (induction t)
  case Nil
  then show ?case by simp
next
  case (Cons c t)
  then have "placeholderMatch (c # t) = None" using placeholderMatch_close by blast
  with Cons show ?case by (simp add: restore_char)
qed


lemma occursIn_set: "occursIn p s \<Longrightarrow> set p \<subseteq> set s"
proof (induction s)
  case Nil
  then show ?case by simp
next
  case (Cons c s)
  from Cons.prems consider "prefix p (c # s)" | "occursIn p s" by (auto simp: occursIn_Cons)
  then show ?case
  proof cases
    case 1
    then show ?thesis using set_mono_prefix by blast
  next
    case 2
    with Cons.IH show ?thesis by auto
  qed
qed

lemma inherited_good:
  assumes "k \<in> set objectPrototypeKeys"
  shows "inheritedText k \<noteq> [] \<and> goodText (inheritedText k)"
proof -
  have a: "63743 \<notin> set (inheritedText k) \<and> inheritedText k \<noteq> [] \<and>
           hd (inheritedText k) \<notin> set (tl placeholderPrefix) \<and>
           last (inheritedText k) \<notin> set placeholderPrefix"
  proof -
    have p: "set placeholderPrefix = {91, 63743, 252, 236, 8721, 32, 73, 77, 65, 71, 69, 45, 67, 79, 76, 80, 83, 68}"
      "set (tl placeholderPrefix) = {63743, 252, 236, 8721, 32, 73, 77, 65, 71, 69, 45, 67, 79, 76, 80, 83, 68}"
      by (auto simp: placeholderPrefix_def cameraSign_def js_def)
    from assms consider "k = js ''__proto__''" | "k = js ''constructor''"
      | "k \<noteq> js ''__proto__''" "k \<noteq> js ''constructor''" "63743 \<notin> set k"
      by (auto simp: objectPrototypeKeys_def js_def)
    then show ?thesis
    proof cases
      case 1
      then show ?thesis unfolding p by (simp add: inheritedText_def js_def)
    next
      case 2
      then show ?thesis unfolding p by (simp add: inheritedText_def js_def)
    next
      case 3
      then show ?thesis unfolding p by (simp add: inheritedText_def js_def)
    qed
  qed
  have "63743 \<in> set placeholderPrefix" by (simp add: placeholderPrefix_def cameraSign_def)
  with a have "\<not> occursIn placeholderPrefix (inheritedText k)"
    using occursIn_set by blast
  with a show ?thesis by (simp add: goodText_def)
qed

lemma storedOrMatch_cases:
  assumes "goodStore store"
  shows "storedOrMatch store ident m = m \<or>
         (storedOrMatch store ident m \<noteq> [] \<and> goodText (storedOrMatch store ident m))"
proof (cases "store ident")
  case None
  then show ?thesis using inherited_good [of ident] by (simp add: storedOrMatch_def)
next
  case (Some v)
  with assms have "goodText v" by (auto simp: goodStore_def)
  with Some show ?thesis by (simp add: storedOrMatch_def)
qed

lemma prefix_of_restore:
  assumes "goodStore store"
  shows "set q \<subseteq> set (tl placeholderPrefix) \<Longrightarrow> prefix q (restoreImages store t)
           \<Longrightarrow> prefix q t"
proof (induction t arbitrary: q rule: length_induct)
  case (1 t)
  show ?case
  proof (cases q)
    case Nil
    then show ?thesis by simp
  next
    case (Cons x q')
    with "1.prems" have x: "x \<in> set (tl placeholderPrefix)" and q': "set q' \<subseteq> set (tl placeholderPrefix)"
      by auto
    from x have x91: "x \<noteq> 91" using prefix_tl_no_open by auto
    show ?thesis
    proof (cases t rule: restore_cases)
      case nil
      with "1.prems" Cons show ?thesis by simp
    next
      case (char c cs)
      then have r: "restoreImages store t = c # restoreImages store cs"
        by (simp add: restore_char)
      with "1.prems"(2) Cons have xc: "x = c" and p: "prefix q' (restoreImages store cs)" by auto
      have "length cs < length t" by (simp add: char)
      with "1.IH" q' p have "prefix q' cs" by blast
      with xc show ?thesis by (simp add: Cons char)
    next
      case (token ident rest)
      define w where "w = storedOrMatch store ident (placeholder ident)"
      have r: "restoreImages store t = w @ restoreImages store rest"
        unfolding token(1) w_def using token(2,3) by (rule restore_token)
      from storedOrMatch_cases [OF assms, of ident "placeholder ident"]
      consider "w = placeholder ident" | "w \<noteq> []" "goodText w" unfolding w_def by blast
      then show ?thesis
      proof cases
        case 1
        then have "hd (restoreImages store t) = 91"
          by (simp add: r placeholder_def placeholderPrefix_def)
        moreover from "1.prems"(2) Cons have "hd (restoreImages store t) = x"
          by (auto simp: prefix_def)
        ultimately show ?thesis using x91 by simp
      next
        case 2
        then have "hd (restoreImages store t) = hd w" by (simp add: r)
        moreover from "1.prems"(2) Cons have "hd (restoreImages store t) = x"
          by (auto simp: prefix_def)
        moreover from 2 have "hd w \<notin> set (tl placeholderPrefix)" by (simp add: goodText_def)
        ultimately show ?thesis using x by simp
      qed
    qed
  qed
qed

lemma restore_through:
  "\<not> occursIn placeholderPrefix w \<Longrightarrow> (w \<noteq> [] \<longrightarrow> last w \<notin> set placeholderPrefix)
     \<Longrightarrow> restoreImages store (w @ r) = w @ restoreImages store r"
proof (induction w)
  case Nil
  then show ?case by simp
next
  case (Cons c w)
  have "\<not> prefix placeholderPrefix ((c # w) @ r)"
  proof
    assume "prefix placeholderPrefix ((c # w) @ r)"
    then consider "prefix placeholderPrefix (c # w)"
      | us where "placeholderPrefix = (c # w) @ us"
      unfolding prefix_append by blast
    then show False
    proof cases
      case 1
      then have "occursIn placeholderPrefix (c # w)" by (rule occursIn_prefix)
      with Cons.prems show False by simp
    next
      case 2
      then have "last (c # w) \<in> set placeholderPrefix"
        by (metis UnI1 last_in_set list.distinct(1) set_append)
      with Cons.prems show False by simp
    qed
  qed
  then have m: "placeholderMatch (c # w @ r) = None"
    using placeholderMatch_prefix [of "c # w @ r"] by (cases "placeholderMatch (c # w @ r)") auto
  from Cons.prems have "\<not> occursIn placeholderPrefix w" by (simp add: occursIn_Cons)
  moreover from Cons.prems have "w \<noteq> [] \<longrightarrow> last w \<notin> set placeholderPrefix" by auto
  ultimately have "restoreImages store (w @ r) = w @ restoreImages store r" by (rule Cons.IH)
  with m show ?case by (simp add: restore_char)
qed

lemma no_match_after_restore:
  assumes "goodStore store" and "placeholderMatch (c # cs) = None"
  shows "placeholderMatch (c # restoreImages store cs) = None"
proof (rule ccontr)
  assume "placeholderMatch (c # restoreImages store cs) \<noteq> None"
  then obtain ident rest where
    "placeholderMatch (c # restoreImages store cs) = Some (ident, rest)" by auto
  then have e: "c # restoreImages store cs = placeholderPrefix @ ident @ 93 # rest"
    and ne: "ident \<noteq> []" and nc: "93 \<notin> set ident"
    by (simp_all add: placeholderMatch_iff)
  from e have c: "c = 91"
    and r: "restoreImages store cs = tl placeholderPrefix @ ident @ 93 # rest"
    by (simp_all add: placeholderPrefix_def)
  from r have "prefix (tl placeholderPrefix) (restoreImages store cs)" by simp
  then have "prefix (tl placeholderPrefix) cs"
    by (rule prefix_of_restore [OF assms(1) subset_refl])
  then obtain t' where cs: "cs = tl placeholderPrefix @ t'" by (auto simp: prefix_def)
  have "restoreImages store cs = tl placeholderPrefix @ restoreImages store t'"
    unfolding cs using prefix_tl_no_open by (rule restore_no_open)
  with r have rt: "restoreImages store t' = ident @ 93 # rest" by simp
  have ccs: "c # cs = placeholderPrefix @ t'" unfolding cs c by (subst (2) prefix_hd) simp
  show False
  proof (cases "93 \<in> set t'")
    case False
    then have "restoreImages store t' = t'" by (rule restore_no_close)
    with rt False show False by simp
  next
    case True
    then obtain a b where t': "t' = a @ 93 # b" and a: "93 \<notin> set a"
      by (auto dest: split_list_first)
    show False
    proof (cases "a = []")
      case True
      have "\<not> prefix placeholderPrefix (93 # b)" by (simp add: placeholderPrefix_def)
      then have "placeholderMatch (93 # b) = None" using placeholderMatch_prefix by blast
      then have "restoreImages store t' = 93 # restoreImages store b"
        unfolding t' True by (simp add: restore_char)
      with rt ne nc show False by (cases ident) auto
    next
      case False
      with a have "placeholderMatch (placeholderPrefix @ a @ 93 # b) = Some (a, b)"
        by (simp add: placeholderMatch_iff)
      with assms(2) show False unfolding ccs t' by simp
    qed
  qed
qed

lemma restore_idem:
  assumes "goodStore store"
  shows "restoreImages store (restoreImages store t) = restoreImages store t"
proof (induction t rule: length_induct)
  case (1 t)
  show ?case
  proof (cases t rule: restore_cases)
    case nil
    then show ?thesis by simp
  next
    case (char c cs)
    then have r: "restoreImages store t = c # restoreImages store cs"
      by (simp add: restore_char)
    from char have "placeholderMatch (c # cs) = None" by simp
    with assms have "placeholderMatch (c # restoreImages store cs) = None"
      by (rule no_match_after_restore)
    then have "restoreImages store (c # restoreImages store cs)
                 = c # restoreImages store (restoreImages store cs)"
      by (rule restore_char)
    moreover have "length cs < length t" by (simp add: char)
    with "1.IH" have "restoreImages store (restoreImages store cs) = restoreImages store cs"
      by blast
    ultimately show ?thesis by (simp add: r)
  next
    case (token ident rest)
    define w where "w = storedOrMatch store ident (placeholder ident)"
    have r: "restoreImages store t = w @ restoreImages store rest"
      unfolding token(1) w_def using token(2,3) by (rule restore_token)
    have "length rest < length t" by (simp add: token placeholder_def)
    with "1.IH" have ih: "restoreImages store (restoreImages store rest) = restoreImages store rest"
      by blast
    from storedOrMatch_cases [OF assms, of ident "placeholder ident"]
    consider "w = placeholder ident" | "w \<noteq> []" "goodText w" unfolding w_def by blast
    then show ?thesis
    proof cases
      case 1
      have "restoreImages store (placeholder ident @ restoreImages store rest)
              = w @ restoreImages store (restoreImages store rest)"
        unfolding w_def using token(2,3) by (rule restore_token)
      with 1 ih show ?thesis by (simp add: r)
    next
      case 2
      then have "restoreImages store (w @ restoreImages store rest)
                   = w @ restoreImages store (restoreImages store rest)"
        by (intro restore_through) (auto simp: goodText_def)
      with ih show ?thesis by (simp add: r)
    qed
  qed
qed


text \<open>
  C3 fails on the code. The user types the placeholder with the id \<open>constructor\<close> and
  hides the images: no pattern matches, the text stays and nothing is stored. The store is
  a plain object, so reading \<open>constructor\<close> gives the function every object inherits,
  which is truthy, and \<open>getContent\<close>, like showing the images again, puts the text of
  that function where the placeholder was. The comment in \<open>restoreImages\<close> says
  \<open>Return original image or placeholder if not found\<close>, and the id is not in the store.
\<close>

theorem restoreImages_replaces_unstored_id:
  "(let ed = toggleImageCollapse sampleDraws
               (inputEvent (placeholder (js ''constructor'')) initialEditor)
    in editorTextarea ed = Some (placeholder (js ''constructor'')) \<and>
       imagesCollapsed ed \<and>
       imageStore ed = Map.empty \<and>
       getContent ed = js ''function Object() { [native code] }'' \<and>
       editorTextarea (toggleImageCollapse sampleDraws ed)
         = Some (js ''function Object() { [native code] }''))"
proof -
  have c: "toggleImageCollapse sampleDraws
             (inputEvent (placeholder (js ''constructor'')) initialEditor)
           = \<lparr>imageStore = Map.empty, draws = 0,
              editorTextarea = Some (placeholder (js ''constructor'')), imagesCollapsed = True,
              history = [placeholder (js ''constructor'')], historyIndex = 0\<rparr>"
    by (simp add: toggleImageCollapse_def inputEvent_def saveToHistory_def initialEditor_def
        collapseImages_def js_def htmlImgMatch_def htmlImgTail_def collapseCallback_def
        placeholder_def placeholderPrefix_def cameraSign_def mdImgMatch_def
        matchedText_def MAX_HISTORY_def Let_def)
  have r: "restoreImages Map.empty (placeholder (js ''constructor''))
           = js ''function Object() { [native code] }''"
    by (simp add: restoreImages_def restoreMatch_def placeholderMatch_def placeholder_def
        placeholderPrefix_def cameraSign_def js_def storedOrMatch_def matchedText_def
        objectPrototypeKeys_def inheritedText_def)
  show ?thesis
    unfolding Let_def c by (simp add: getContent_def toggleImageCollapse_def r)
qed

text \<open>
  What the scan does for every store: it replaces a placeholder whose id is stored with a
  non-empty text by that text, keeps a placeholder whose id is neither stored nor inherited
  from \<open>Object.prototype\<close>, and keeps every character at which no placeholder starts.
  Restoring twice is restoring once whenever no stored text contains the placeholder
  prefix, starts with a character of the prefix behind its bracket or ends with a character
  of the prefix.
\<close>

theorem restoreImages_spec:
  "(\<forall>ident rest v. ident \<noteq> [] \<and> 93 \<notin> set ident \<and> store ident = Some v \<and> v \<noteq> [] \<longrightarrow>
      restoreImages store (placeholder ident @ rest) = v @ restoreImages store rest) \<and>
   (\<forall>ident rest. ident \<noteq> [] \<and> 93 \<notin> set ident \<and> store ident = None \<and>
      ident \<notin> set objectPrototypeKeys \<longrightarrow>
      restoreImages store (placeholder ident @ rest)
        = placeholder ident @ restoreImages store rest) \<and>
   (\<forall>c cs. placeholderMatch (c # cs) = None \<longrightarrow>
      restoreImages store (c # cs) = c # restoreImages store cs) \<and>
   (goodStore store \<longrightarrow>
      (\<forall>x. restoreImages store (restoreImages store x) = restoreImages store x))"
  by (auto simp: restore_token restore_char restore_idem storedOrMatch_def)

theorem restoreImages_spec_witness:
  "js ''a'' \<noteq> [] \<and> 93 \<notin> set (js ''a'') \<and> [js ''a'' \<mapsto> js ''<p>''] (js ''a'') = Some (js ''<p>'') \<and>
   js ''<p>'' \<noteq> [] \<and>
   restoreImages [js ''a'' \<mapsto> js ''<p>''] (placeholder (js ''a'') @ js ''z'') = js ''<p>z'' \<and>
   js ''b'' \<noteq> [] \<and> 93 \<notin> set (js ''b'') \<and> [js ''a'' \<mapsto> js ''<p>''] (js ''b'') = None \<and>
   js ''b'' \<notin> set objectPrototypeKeys \<and>
   restoreImages [js ''a'' \<mapsto> js ''<p>''] (placeholder (js ''b'') @ js ''z'')
     = placeholder (js ''b'') @ js ''z'' \<and>
   placeholderMatch (120 # js ''y'') = None \<and>
   restoreImages [js ''a'' \<mapsto> js ''<p>''] (120 # js ''y'') = 120 # js ''y'' \<and>
   goodStore [js ''a'' \<mapsto> js ''<p>''] \<and>
   restoreImages [js ''a'' \<mapsto> js ''<p>'']
     (restoreImages [js ''a'' \<mapsto> js ''<p>''] (placeholder (js ''a'') @ js ''z''))
     = restoreImages [js ''a'' \<mapsto> js ''<p>''] (placeholder (js ''a'') @ js ''z'')"
proof -
  let ?S = "[js ''a'' \<mapsto> js ''<p>'']"
  note spec = restoreImages_spec [of ?S]
  have g: "goodStore ?S"
    by (simp add: goodStore_def goodText_def occursIn_def placeholderPrefix_def cameraSign_def
        js_def)
  have k: "js ''b'' \<notin> set objectPrototypeKeys" by (simp add: objectPrototypeKeys_def js_def)
  have m: "placeholderMatch (120 # js ''y'') = None"
    by (simp add: placeholderMatch_def placeholderPrefix_def js_def)
  have e: "restoreImages ?S (js ''z'') = js ''z''" "restoreImages ?S (js ''y'') = js ''y''"
    by (simp_all add: restoreImages_def restoreMatch_def placeholderMatch_def
        placeholderPrefix_def js_def)
  have a: "js ''a'' \<noteq> []" "93 \<notin> set (js ''a'')" "js ''b'' \<noteq> []" "93 \<notin> set (js ''b'')"
    "?S (js ''a'') = Some (js ''<p>'')" "?S (js ''b'') = None" "js ''<p>'' \<noteq> []"
    by (simp_all add: js_def)
  have p1: "restoreImages ?S (placeholder (js ''a'') @ js ''z'')
              = js ''<p>'' @ restoreImages ?S (js ''z'')"
    by (rule spec [THEN conjunct1, rule_format]) (use a in simp)
  have p2: "restoreImages ?S (placeholder (js ''b'') @ js ''z'')
              = placeholder (js ''b'') @ restoreImages ?S (js ''z'')"
    by (rule spec [THEN conjunct2, THEN conjunct1, rule_format]) (use a k in simp)
  have p3: "restoreImages ?S (120 # js ''y'') = 120 # restoreImages ?S (js ''y'')"
    by (rule spec [THEN conjunct2, THEN conjunct2, THEN conjunct1, rule_format]) (rule m)
  have p4: "restoreImages ?S (restoreImages ?S (placeholder (js ''a'') @ js ''z''))
              = restoreImages ?S (placeholder (js ''a'') @ js ''z'')"
    by (rule spec [THEN conjunct2, THEN conjunct2, THEN conjunct2, rule_format]) (rule g)
  have q1: "restoreImages ?S (placeholder (js ''a'') @ js ''z'') = js ''<p>z''"
    unfolding p1 e by (simp add: js_def)
  have q2: "restoreImages ?S (placeholder (js ''b'') @ js ''z'')
              = placeholder (js ''b'') @ js ''z''"
    unfolding p2 e by simp
  have q3: "restoreImages ?S (120 # js ''y'') = 120 # js ''y''"
    unfolding p3 e by simp
  show ?thesis
    by (intro conjI; (rule a k g m q1 q2 q3 p4))
qed

section \<open>Results: collapsing and restoring\<close>

lemma set_prefix:
  "set placeholderPrefix = {91, 63743, 252, 236, 8721, 32, 73, 77, 65, 71, 69, 45, 67, 79, 76, 80, 83, 68}"
  by (auto simp: placeholderPrefix_def cameraSign_def js_def)

lemma idOk_chars:
  assumes "idOk ident"
  shows "93 \<notin> set ident" "91 \<notin> set ident" "60 \<notin> set ident" "33 \<notin> set ident"
    "62 \<notin> set ident" "41 \<notin> set ident"
  using assms by (auto simp: idOk_def isLower_def isDigit_def)

lemma placeholder_chars:
  assumes "idOk ident"
  shows "60 \<notin> set (placeholder ident)" "33 \<notin> set (placeholder ident)"
    "62 \<notin> set (placeholder ident)" "41 \<notin> set (placeholder ident)"
  using idOk_chars [OF assms] by (simp_all add: placeholder_def set_prefix)

lemma idOk_close: "idOk ident \<Longrightarrow> ident \<noteq> [] \<and> 93 \<notin> set ident"
  using idOk_chars(1) by (simp add: idOk_def)

lemma collapsedFrom_restore:
  "collapsedFrom store y x \<Longrightarrow> restoreImages store y = x"
proof (induction rule: collapsedFrom.induct)
  case nil
  show ?case by simp
next
  case (chr y x c)
  then have "placeholderMatch (c # y) = None"
    using placeholderMatch_prefix [of "c # y"] by (cases "placeholderMatch (c # y)") auto
  with chr show ?case by (simp add: restore_char)
next
  case (tok y x ident v)
  then have "restoreImages store (placeholder ident @ y)
               = storedOrMatch store ident (placeholder ident) @ restoreImages store y"
    using idOk_close by (intro restore_token) auto
  with tok show ?case by (simp add: storedOrMatch_def)
qed

lemma collapsedFrom_refl:
  "\<not> occursIn placeholderPrefix x \<Longrightarrow> collapsedFrom store x x"
proof (induction x)
  case Nil
  show ?case by (rule collapsedFrom.nil)
next
  case (Cons c x)
  then have "\<not> prefix placeholderPrefix (c # x)" and "\<not> occursIn placeholderPrefix x"
    by (auto simp: occursIn_Cons)
  with Cons.IH show ?case by (intro collapsedFrom.chr) auto
qed

lemma collapsedFrom_split:
  assumes "\<not> occursIn placeholderPrefix mt" and "mt \<noteq> []" and "last mt = 62 \<or> last mt = 41"
    and "collapsedFrom store (mt @ rest) x"
  shows "\<exists>x1. x = mt @ x1 \<and> collapsedFrom store rest x1"
  using assms
proof (induction mt arbitrary: x)
  case Nil
  then show ?case by simp
next
  case (Cons c mt)
  from Cons.prems(4) have "collapsedFrom store (c # (mt @ rest)) x" by simp
  then show ?case
  proof (cases rule: collapsedFrom.cases)
    case (chr x0)
    show ?thesis
    proof (cases "mt = []")
      case True
      with chr show ?thesis by simp
    next
      case False
      from Cons.prems(1) have "\<not> occursIn placeholderPrefix mt" by (simp add: occursIn_Cons)
      moreover from Cons.prems(3) False have "last mt = 62 \<or> last mt = 41" by simp
      ultimately obtain x1 where "x0 = mt @ x1" "collapsedFrom store rest x1"
        using Cons.IH [OF _ False _ chr(2)] by blast
      with chr show ?thesis by simp
    qed
  next
    case (tok y0 x0 ident v)
    from tok(1) have "(c # mt) @ rest = placeholder ident @ y0" by simp
    then obtain us where
      "c # mt = placeholder ident @ us \<and> us @ rest = y0 \<or>
       (c # mt) @ us = placeholder ident \<and> rest = us @ y0"
      unfolding append_eq_append_conv2 by blast
    then consider "c # mt = placeholder ident @ us" | "(c # mt) @ us = placeholder ident"
      by blast
    then show ?thesis
    proof cases
      case 1
      then have "prefix placeholderPrefix (c # mt)" by (simp add: placeholder_def)
      then have "occursIn placeholderPrefix (c # mt)" by (rule occursIn_prefix)
      with Cons.prems(1) show ?thesis by simp
    next
      case 2
      then have "last (c # mt) \<in> set (placeholder ident)"
        by (metis UnI1 last_in_set list.distinct(1) set_append)
      with placeholder_chars(3,4) [OF tok(6)] Cons.prems(3) show ?thesis by metis
    qed
  qed
qed

lemma collapsedFrom_mono:
  "collapsedFrom store y x \<Longrightarrow> (\<And>k v. store k = Some v \<Longrightarrow> store' k = Some v)
     \<Longrightarrow> collapsedFrom store' y x"
  by (induction rule: collapsedFrom.induct) (auto intro: collapsedFrom.intros)


lemma collapseCallback_eq:
  "collapseCallback rnd mt st =
     (placeholder (imgId rnd (draws st)),
      st\<lparr>imageStore := (imageStore st)(imgId rnd (draws st) \<mapsto> mt), draws := Suc (draws st)\<rparr>)"
  by (simp add: collapseCallback_def imgId_def Let_def)

lemma replaceAllSt_skip:
  "m (c # cs) = None \<or> (\<exists>rest. m (c # cs) = Some rest \<and> \<not> length rest < length (c # cs))
     \<Longrightarrow> replaceAllSt m f (c # cs) st
           = (case replaceAllSt m f cs st of (out, st') \<Rightarrow> (c # out, st'))"
  by auto

lemma replaceAllSt_match:
  "m (c # cs) = Some rest \<Longrightarrow> length rest < length (c # cs)
     \<Longrightarrow> replaceAllSt m f (c # cs) st
           = (case f (matchedText (c # cs) rest) st of
                (r, st1) \<Rightarrow> (case replaceAllSt m f rest st1 of (out, st2) \<Rightarrow> (r @ out, st2)))"
  by simp

lemma imageMatcher_hd:
  assumes "imageMatcher m" and "m (c # cs) = Some rest"
  shows "c = 60 \<or> c = 33"
proof -
  from assms obtain mt where "c # cs = mt @ rest" "mt \<noteq> []" "hd mt = 60 \<or> hd mt = 33"
    unfolding imageMatcher_def by blast
  then show ?thesis by (cases mt) auto
qed

lemma pass_through:
  assumes "imageMatcher m"
  shows "60 \<notin> set u \<Longrightarrow> 33 \<notin> set u
           \<Longrightarrow> replaceAllSt m f (u @ t) st
                 = (case replaceAllSt m f t st of (out, st') \<Rightarrow> (u @ out, st'))"
proof (induction u)
  case Nil
  then show ?case by simp
next
  case (Cons c u)
  have "m (c # u @ t) = None"
  proof (cases "m (c # u @ t)")
    case None
    then show ?thesis .
  next
    case (Some rest)
    with assms have "c = 60 \<or> c = 33" by (rule imageMatcher_hd)
    with Cons.prems show ?thesis by auto
  qed
  then have "replaceAllSt m f (c # u @ t) st
               = (case replaceAllSt m f (u @ t) st of (out, st') \<Rightarrow> (c # out, st'))"
    by (intro replaceAllSt_skip) simp
  with Cons show ?case by (simp split: prod.splits)
qed

lemma store_after_pass:
  "replaceAllSt m (collapseCallback rnd) y st = (y', st') \<Longrightarrow>
     draws st \<le> draws st' \<and>
     (\<forall>k. (\<forall>n. draws st \<le> n \<and> n < draws st' \<longrightarrow> k \<noteq> imgId rnd n)
            \<longrightarrow> imageStore st' k = imageStore st k)"
proof (induction y arbitrary: st y' st' rule: length_induct)
  case (1 y)
  show ?case
  proof (cases y)
    case Nil
    with "1.prems" show ?thesis by simp
  next
    case (Cons c cs)
    show ?thesis
    proof (cases "\<exists>rest. m (c # cs) = Some rest \<and> length rest < length (c # cs)")
      case False
      then have "replaceAllSt m (collapseCallback rnd) (c # cs) st
                   = (case replaceAllSt m (collapseCallback rnd) cs st of
                        (out, st') \<Rightarrow> (c # out, st'))"
        by (intro replaceAllSt_skip) (cases "m (c # cs)", auto)
      with "1.prems" Cons obtain out where
        "replaceAllSt m (collapseCallback rnd) cs st = (out, st')"
        by (auto split: prod.splits)
      moreover have "length cs < length y" by (simp add: Cons)
      ultimately show ?thesis using "1.IH" by blast
    next
      case True
      then obtain rest where r: "m (c # cs) = Some rest" "length rest < length (c # cs)"
        by blast
      define st1 where "st1 = snd (collapseCallback rnd (matchedText (c # cs) rest) st)"
      have d1: "draws st1 = Suc (draws st)"
        and s1: "imageStore st1
                   = (imageStore st)(imgId rnd (draws st) \<mapsto> matchedText (c # cs) rest)"
        by (simp_all add: st1_def collapseCallback_eq)
      from r "1.prems" Cons obtain out where
        run: "replaceAllSt m (collapseCallback rnd) rest st1 = (out, st')"
        by (auto simp: st1_def replaceAllSt_match split: prod.splits simp del: replaceAllSt.simps)
      have "length rest < length y" using r by (simp add: Cons)
      with "1.IH" run have ih: "draws st1 \<le> draws st' \<and>
          (\<forall>k. (\<forall>n. draws st1 \<le> n \<and> n < draws st' \<longrightarrow> k \<noteq> imgId rnd n)
                 \<longrightarrow> imageStore st' k = imageStore st1 k)"
        by blast
      show ?thesis
      proof (intro conjI allI impI)
        show "draws st \<le> draws st'" using ih d1 by simp
      next
        fix k
        assume k: "\<forall>n. draws st \<le> n \<and> n < draws st' \<longrightarrow> k \<noteq> imgId rnd n"
        then have "\<forall>n. draws st1 \<le> n \<and> n < draws st' \<longrightarrow> k \<noteq> imgId rnd n"
          using d1 by auto
        with ih have "imageStore st' k = imageStore st1 k" by blast
        moreover have "k \<noteq> imgId rnd (draws st)" using k ih d1 by auto
        ultimately show "imageStore st' k = imageStore st k" by (simp add: s1)
      qed
    qed
  qed
qed

lemma prefix_of_pass:
  "91 \<notin> set q \<Longrightarrow> replaceAllSt m (collapseCallback rnd) t st = (y', st') \<Longrightarrow> prefix q y'
     \<Longrightarrow> prefix q t"
proof (induction t arbitrary: q st y' st' rule: length_induct)
  case (1 t)
  show ?case
  proof (cases q)
    case Nil
    then show ?thesis by simp
  next
    case q: (Cons a q')
    show ?thesis
    proof (cases t)
      case Nil
      with "1.prems" q show ?thesis by simp
    next
      case (Cons c cs)
      show ?thesis
      proof (cases "\<exists>rest. m (c # cs) = Some rest \<and> length rest < length (c # cs)")
        case False
        then have "replaceAllSt m (collapseCallback rnd) (c # cs) st
                     = (case replaceAllSt m (collapseCallback rnd) cs st of
                          (out, st') \<Rightarrow> (c # out, st'))"
          by (intro replaceAllSt_skip) (cases "m (c # cs)", auto)
        with "1.prems" Cons obtain out where
          run: "replaceAllSt m (collapseCallback rnd) cs st = (out, st')" and y': "y' = c # out"
          by (auto split: prod.splits)
        from "1.prems"(3) q y' have ac: "a = c" and p: "prefix q' out" by auto
        have "length cs < length t" by (simp add: Cons)
        moreover from "1.prems"(1) q have "91 \<notin> set q'" by simp
        ultimately have "prefix q' cs" using "1.IH" run p by blast
        with ac show ?thesis by (simp add: q Cons)
      next
        case True
        then obtain rest where r: "m (c # cs) = Some rest" "length rest < length (c # cs)"
          by blast
        with "1.prems"(2) Cons have "hd y' = 91"
          by (auto simp: replaceAllSt_match collapseCallback_eq placeholder_def
              placeholderPrefix_def split: prod.splits simp del: replaceAllSt.simps)
        moreover from "1.prems"(3) q have "hd y' = a" by (auto simp: prefix_def)
        ultimately show ?thesis using "1.prems"(1) q by simp
      qed
    qed
  qed
qed


lemma pass_keeps:
  assumes im: "imageMatcher m" and ids: "\<And>n. idOk (imgId rnd n)"
    and free: "\<And>k v. F k = Some v \<Longrightarrow> \<not> occursIn placeholderPrefix v"
  shows "collapsedFrom F y x \<Longrightarrow> replaceAllSt m (collapseCallback rnd) y st = (y', st')
     \<Longrightarrow> inj_on (imgId rnd) {draws st ..< draws st'}
     \<Longrightarrow> (\<And>n. draws st \<le> n \<Longrightarrow> n < draws st'
            \<Longrightarrow> F (imgId rnd n) = imageStore st' (imgId rnd n))
     \<Longrightarrow> collapsedFrom F y' x"
proof (induction y arbitrary: x st y' rule: length_induct)
  case (1 y)
  note rel = "1.prems"(1) and run = "1.prems"(2) and inj = "1.prems"(3) and agree = "1.prems"(4)
  show ?case
  proof (cases y)
    case Nil
    with run rel show ?thesis by simp
  next
    case (Cons c cs)
    from rel have "collapsedFrom F (c # cs) x" by (simp add: Cons)
    then show ?thesis
    proof (cases rule: collapsedFrom.cases)
      case (tok y0 x0 ident v)
      have ph: "60 \<notin> set (placeholder ident)" "33 \<notin> set (placeholder ident)"
        using placeholder_chars [OF tok(6)] by simp_all
      have "replaceAllSt m (collapseCallback rnd) (placeholder ident @ y0) st
              = (case replaceAllSt m (collapseCallback rnd) y0 st of
                   (out, st') \<Rightarrow> (placeholder ident @ out, st'))"
        using im ph by (rule pass_through)
      with run Cons tok(1) obtain out where
        run0: "replaceAllSt m (collapseCallback rnd) y0 st = (out, st')"
        and y': "y' = placeholder ident @ out"
        by (auto split: prod.splits)
      have "length y0 < length y" unfolding Cons tok(1) by (simp add: placeholder_def)
      with "1.IH" tok(3) run0 inj agree have "collapsedFrom F out x0" by blast
      then have "collapsedFrom F (placeholder ident @ out) (v @ x0)"
        using tok(4,5,6) by (rule collapsedFrom.tok)
      then show ?thesis by (simp add: y' tok(2))
    next
      case (chr x0)
      show ?thesis
      proof (cases "\<exists>rest. m (c # cs) = Some rest \<and> length rest < length (c # cs)")
        case False
        then have "replaceAllSt m (collapseCallback rnd) (c # cs) st
                     = (case replaceAllSt m (collapseCallback rnd) cs st of
                          (out, st') \<Rightarrow> (c # out, st'))"
          by (intro replaceAllSt_skip) (cases "m (c # cs)", auto)
        with run Cons obtain out where
          run0: "replaceAllSt m (collapseCallback rnd) cs st = (out, st')" and y': "y' = c # out"
          by (auto split: prod.splits)
        have "length cs < length y" by (simp add: Cons)
        with "1.IH" chr(2) run0 inj agree have r0: "collapsedFrom F out x0" by blast
        have "\<not> prefix placeholderPrefix (c # out)"
        proof
          assume "prefix placeholderPrefix (c # out)"
          then have c: "c = 91" and p: "prefix (tl placeholderPrefix) out"
            by (simp_all add: placeholderPrefix_def)
          from prefix_tl_no_open run0 p have "prefix (tl placeholderPrefix) cs"
            by (rule prefix_of_pass)
          with c have "prefix placeholderPrefix (c # cs)" by (subst prefix_hd) simp
          with chr(3) show False by simp
        qed
        with r0 have "collapsedFrom F (c # out) (c # x0)" by (rule collapsedFrom.chr)
        then show ?thesis by (simp add: y' chr(1))
      next
        case True
        then obtain rest where r: "m (c # cs) = Some rest" "length rest < length (c # cs)"
          by blast
        from im r(1) obtain mt where mt: "c # cs = mt @ rest" "mt \<noteq> []"
          "last mt = 62 \<or> last mt = 41"
          unfolding imageMatcher_def by blast
        have mtx: "matchedText (c # cs) rest = mt" unfolding mt(1) by simp
        define n where "n = draws st"
        define st1 where "st1 = snd (collapseCallback rnd mt st)"
        have d1: "draws st1 = Suc n"
          and s1: "imageStore st1 = (imageStore st)(imgId rnd n \<mapsto> mt)"
          by (simp_all add: st1_def collapseCallback_eq n_def)
        have cb: "collapseCallback rnd mt st = (placeholder (imgId rnd n), st1)"
          by (simp add: st1_def collapseCallback_eq n_def)
        from r run Cons obtain out where
          run1: "replaceAllSt m (collapseCallback rnd) rest st1 = (out, st')"
          and y': "y' = placeholder (imgId rnd n) @ out"
          by (auto simp: mtx replaceAllSt_match cb split: prod.splits
              simp del: replaceAllSt.simps)
        from store_after_pass [OF run1] have le: "Suc n \<le> draws st'"
          and keep: "\<And>k. (\<forall>i. Suc n \<le> i \<and> i < draws st' \<longrightarrow> k \<noteq> imgId rnd i)
                        \<Longrightarrow> imageStore st' k = imageStore st1 k"
          unfolding d1 by blast+
        have "\<forall>i. Suc n \<le> i \<and> i < draws st' \<longrightarrow> imgId rnd n \<noteq> imgId rnd i"
        proof (intro allI impI)
          fix i
          assume i: "Suc n \<le> i \<and> i < draws st'"
          with le have "n \<in> {draws st ..< draws st'}" "i \<in> {draws st ..< draws st'}" "n \<noteq> i"
            by (auto simp: n_def)
          with inj show "imgId rnd n \<noteq> imgId rnd i" by (auto dest: inj_onD)
        qed
        then have "imageStore st' (imgId rnd n) = imageStore st1 (imgId rnd n)" by (rule keep)
        then have "imageStore st' (imgId rnd n) = Some mt" by (simp add: s1)
        moreover have "F (imgId rnd n) = imageStore st' (imgId rnd n)"
          using le by (intro agree) (auto simp: n_def)
        ultimately have Fn: "F (imgId rnd n) = Some mt" by simp
        then have "\<not> occursIn placeholderPrefix mt" by (rule free)
        moreover from rel have "collapsedFrom F (mt @ rest) x" by (simp add: Cons mt(1))
        ultimately obtain x1 where x: "x = mt @ x1" and r1: "collapsedFrom F rest x1"
          using collapsedFrom_split [OF _ mt(2,3)] by blast
        have "length rest < length y" using r(2) by (simp add: Cons)
        moreover have "inj_on (imgId rnd) {draws st1 ..< draws st'}"
          using inj by (rule inj_on_subset) (auto simp: d1 n_def)
        moreover have "\<And>i. draws st1 \<le> i \<Longrightarrow> i < draws st'
                         \<Longrightarrow> F (imgId rnd i) = imageStore st' (imgId rnd i)"
          using agree by (simp add: d1 n_def)
        ultimately have "collapsedFrom F out x1" using "1.IH" r1 run1 by blast
        then have "collapsedFrom F (placeholder (imgId rnd n) @ out) (mt @ x1)"
          using Fn mt(2) ids by (rule collapsedFrom.tok)
        then show ?thesis by (simp add: y' x)
      qed
    qed
  qed
qed

lemma mdImgMatch_shape:
  assumes "mdImgMatch t = Some rest"
  shows "\<exists>mid. t = 33 # mid @ 41 # rest"
proof -
  from assms obtain s1 s2 where
    s1: "expect (js ''!['') t = Some s1"
    and s2: "expect (js ''](data:image'') (dropWhile (\<lambda>c. c \<noteq> 93) s1) = Some s2"
    and e: "expect [41] (dropWhile (\<lambda>c. c \<noteq> 41) s2) = Some rest"
    by (auto simp: mdImgMatch_def split: bind_splits if_splits)
  from s1 have t: "t = js ''!['' @ s1" by (simp add: expect_Some_iff)
  from s2 have d1: "dropWhile (\<lambda>c. c \<noteq> 93) s1 = js ''](data:image'' @ s2"
    by (simp add: expect_Some_iff)
  from e have d2: "dropWhile (\<lambda>c. c \<noteq> 41) s2 = 41 # rest" by (simp add: expect_Some_iff)
  have "s1 = takeWhile (\<lambda>c. c \<noteq> 93) s1 @ dropWhile (\<lambda>c. c \<noteq> 93) s1" by simp
  with d1 have a: "s1 = takeWhile (\<lambda>c. c \<noteq> 93) s1 @ js ''](data:image'' @ s2" by simp
  have "s2 = takeWhile (\<lambda>c. c \<noteq> 41) s2 @ dropWhile (\<lambda>c. c \<noteq> 41) s2" by simp
  with d2 have b: "s2 = takeWhile (\<lambda>c. c \<noteq> 41) s2 @ 41 # rest" by simp
  have "t = 33 # (91 # takeWhile (\<lambda>c. c \<noteq> 93) s1 @ js ''](data:image''
                  @ takeWhile (\<lambda>c. c \<noteq> 41) s2) @ 41 # rest"
    by (subst t, subst a, subst b) (simp add: js_def)
  then show ?thesis by blast
qed

lemma htmlImgTail_shape:
  assumes "htmlImgTail t = Some rest"
  shows "\<exists>mid. t = mid @ 62 # rest"
proof -
  from assms obtain s1 s2 where
    "expect (js ''src=\"data:image'') t = Some s1"
    and "expect [34] (dropWhile (\<lambda>c. c \<noteq> 34) s1) = Some s2"
    and "expect (js ''></p>'') (dropWhile (\<lambda>c. c \<noteq> 62) s2) = Some rest"
    by (auto simp: htmlImgTail_def split: bind_splits)
  then have t: "t = js ''src=\"data:image'' @ s1"
    and d1: "dropWhile (\<lambda>c. c \<noteq> 34) s1 = 34 # s2"
    and d2: "dropWhile (\<lambda>c. c \<noteq> 62) s2 = js ''></p>'' @ rest"
    by (simp_all add: expect_Some_iff)
  have "s1 = takeWhile (\<lambda>c. c \<noteq> 34) s1 @ dropWhile (\<lambda>c. c \<noteq> 34) s1" by simp
  with d1 have a: "s1 = takeWhile (\<lambda>c. c \<noteq> 34) s1 @ 34 # s2" by simp
  have "s2 = takeWhile (\<lambda>c. c \<noteq> 62) s2 @ dropWhile (\<lambda>c. c \<noteq> 62) s2" by simp
  with d2 have b: "s2 = takeWhile (\<lambda>c. c \<noteq> 62) s2 @ js ''></p>'' @ rest" by simp
  have "t = (js ''src=\"data:image'' @ takeWhile (\<lambda>c. c \<noteq> 34) s1 @ 34 #
             takeWhile (\<lambda>c. c \<noteq> 62) s2 @ js ''></p'') @ 62 # rest"
    by (subst t, subst a, subst b) (simp add: js_def)
  then show ?thesis by blast
qed

lemma htmlImgAttrs_shape:
  "htmlImgAttrs t = Some rest \<Longrightarrow> \<exists>mid. t = mid @ 62 # rest"
proof (induction t)
  case Nil
  then show ?case using htmlImgTail_shape [of "[]" rest] by simp
next
  case (Cons c cs)
  show ?case
  proof (cases "c \<noteq> 62 \<and> htmlImgAttrs cs \<noteq> None")
    case True
    with Cons.prems have "htmlImgAttrs cs = Some rest" by auto
    with Cons.IH obtain mid where "cs = mid @ 62 # rest" by blast
    then have "c # cs = (c # mid) @ 62 # rest" by simp
    then show ?thesis by blast
  next
    case False
    with Cons.prems have "htmlImgTail (c # cs) = Some rest" by (auto split: if_splits)
    then show ?thesis by (rule htmlImgTail_shape)
  qed
qed

lemma htmlImgMatch_shape:
  assumes "htmlImgMatch t = Some rest"
  shows "\<exists>mid. t = 60 # mid @ 62 # rest"
proof -
  from assms obtain s1 s2 where
    "expect (js ''<p'') t = Some s1"
    and "expect (js ''><img'') (dropWhile (\<lambda>c. c \<noteq> 62) s1) = Some s2"
    and at: "htmlImgAttrs s2 = Some rest"
    by (auto simp: htmlImgMatch_def split: bind_splits)
  then have t: "t = js ''<p'' @ s1"
    and d1: "dropWhile (\<lambda>c. c \<noteq> 62) s1 = js ''><img'' @ s2"
    by (simp_all add: expect_Some_iff)
  have "s1 = takeWhile (\<lambda>c. c \<noteq> 62) s1 @ dropWhile (\<lambda>c. c \<noteq> 62) s1" by simp
  with d1 have a: "s1 = takeWhile (\<lambda>c. c \<noteq> 62) s1 @ js ''><img'' @ s2" by simp
  from at obtain mid where b: "s2 = mid @ 62 # rest" using htmlImgAttrs_shape by blast
  have "t = 60 # (112 # takeWhile (\<lambda>c. c \<noteq> 62) s1 @ js ''><img'' @ mid) @ 62 # rest"
    by (subst t, subst a, subst b) (simp add: js_def)
  then show ?thesis by blast
qed

lemma imageMatcher_html: "imageMatcher htmlImgMatch"
  unfolding imageMatcher_def
proof (intro allI impI)
  fix t rest
  assume "htmlImgMatch t = Some rest"
  then obtain mid where "t = 60 # mid @ 62 # rest" using htmlImgMatch_shape by blast
  then have "t = (60 # mid @ [62]) @ rest \<and> 60 # mid @ [62] \<noteq> [] \<and>
             (hd (60 # mid @ [62]) = 60 \<or> hd (60 # mid @ [62]) = 33) \<and>
             (last (60 # mid @ [62]) = 62 \<or> last (60 # mid @ [62]) = 41)"
    by simp
  then show "\<exists>mt. t = mt @ rest \<and> mt \<noteq> [] \<and> (hd mt = 60 \<or> hd mt = 33) \<and>
                  (last mt = 62 \<or> last mt = 41)"
    by blast
qed

lemma imageMatcher_md: "imageMatcher mdImgMatch"
  unfolding imageMatcher_def
proof (intro allI impI)
  fix t rest
  assume "mdImgMatch t = Some rest"
  then obtain mid where "t = 33 # mid @ 41 # rest" using mdImgMatch_shape by blast
  then have "t = (33 # mid @ [41]) @ rest \<and> 33 # mid @ [41] \<noteq> [] \<and>
             (hd (33 # mid @ [41]) = 60 \<or> hd (33 # mid @ [41]) = 33) \<and>
             (last (33 # mid @ [41]) = 62 \<or> last (33 # mid @ [41]) = 41)"
    by simp
  then show "\<exists>mt. t = mt @ rest \<and> mt \<noteq> [] \<and> (hd mt = 60 \<or> hd mt = 33) \<and>
                  (last mt = 62 \<or> last mt = 41)"
    by blast
qed


lemma base36_idOk: "base36Draws rnd \<Longrightarrow> idOk (imgId rnd n)"
  by (auto simp: base36Draws_def idOk_def imgId_def js_def isLower_def)

lemma replaceAllSt_no_match:
  "\<not> matchesAnywhere m s \<Longrightarrow> replaceAllSt m f s st = (s, st)"
proof (induction s)
  case Nil
  then show ?case by simp
next
  case (Cons c cs)
  from Cons.prems have "m (c # cs) = None" and "\<not> matchesAnywhere m cs"
    unfolding matchesAnywhere_Cons by blast+
  with Cons.IH show ?case by simp
qed

lemma collapse_roundtrip:
  assumes free: "\<not> occursIn placeholderPrefix x"
    and b36: "base36Draws rnd"
    and run: "collapseImages rnd x st = (y, st')"
    and inj: "inj_on rnd {draws st ..< draws st'}"
    and pf: "prefixFree (imageStore st')"
  shows "restoreImages (imageStore st') y = x"
proof -
  from run obtain y1 st1 where
    run1: "replaceAllSt htmlImgMatch (collapseCallback rnd) x st = (y1, st1)"
    and run2: "replaceAllSt mdImgMatch (collapseCallback rnd) y1 st1 = (y, st')"
    by (auto simp: collapseImages_def split: prod.splits)
  note a1 = store_after_pass [OF run1] and a2 = store_after_pass [OF run2]
  from a1 a2 have le: "draws st \<le> draws st1" "draws st1 \<le> draws st'" by blast+
  have inj': "inj_on (imgId rnd) {draws st ..< draws st'}"
    using inj by (auto simp: inj_on_def imgId_def)
  define F where "F = imageStore st'"
  have ids: "\<And>n. idOk (imgId rnd n)" using b36 by (rule base36_idOk)
  have Ffree: "\<And>k v. F k = Some v \<Longrightarrow> \<not> occursIn placeholderPrefix v"
    using pf by (auto simp: prefixFree_def F_def)
  have r0: "collapsedFrom F x x" using free by (rule collapsedFrom_refl)
  have inj1: "inj_on (imgId rnd) {draws st ..< draws st1}"
    using inj' by (rule inj_on_subset) (use le in auto)
  have agree1: "F (imgId rnd n) = imageStore st1 (imgId rnd n)"
    if n: "draws st \<le> n" "n < draws st1" for n
  proof -
    have "\<forall>i. draws st1 \<le> i \<and> i < draws st' \<longrightarrow> imgId rnd n \<noteq> imgId rnd i"
    proof (intro allI impI)
      fix i
      assume "draws st1 \<le> i \<and> i < draws st'"
      with n le have "n \<in> {draws st ..< draws st'}" "i \<in> {draws st ..< draws st'}" "n \<noteq> i"
        by auto
      with inj' show "imgId rnd n \<noteq> imgId rnd i" by (auto dest: inj_onD)
    qed
    with a2 show ?thesis unfolding F_def by blast
  qed
  have r1: "collapsedFrom F y1 x"
    using imageMatcher_html ids Ffree r0 run1 inj1 agree1 by (rule pass_keeps)
  have inj2: "inj_on (imgId rnd) {draws st1 ..< draws st'}"
    using inj' by (rule inj_on_subset) (use le in auto)
  have agree2: "F (imgId rnd n) = imageStore st' (imgId rnd n)" for n
    unfolding F_def ..
  have r2: "collapsedFrom F y x"
    using imageMatcher_md ids Ffree r1 run2 inj2 agree2 by (rule pass_keeps)
  then show ?thesis unfolding F_def by (rule collapsedFrom_restore)
qed

text \<open>
  C2 fails as stated. The Markdown pattern runs over the text the HTML pass has produced
  and can match across a placeholder of that pass: for \<open>!\<close>, an HTML-form image and
  \<open>(data:image/png;base64,B)\<close> the second pass stores the first placeholder inside its
  own match, and restoring, which does not rescan what it has put back, leaves that
  placeholder in the text. And a placeholder prefix already in the text takes the
  placeholder behind it for part of its own id, which is not stored.
\<close>

theorem collapse_restore_not_inverse:
  "restoreImages
     (imageStore (snd (collapseImages sampleDraws
        (js ''!'' @ sampleHtmlImage @ js ''(data:image/png;base64,B)'') emptyCollapseState)))
     (fst (collapseImages sampleDraws
        (js ''!'' @ sampleHtmlImage @ js ''(data:image/png;base64,B)'') emptyCollapseState))
     = js ''!'' @ placeholder (js ''img-a'') @ js ''(data:image/png;base64,B)'' \<and>
   restoreImages
     (imageStore (snd (collapseImages sampleDraws
        (placeholderPrefix @ sampleHtmlImage) emptyCollapseState)))
     (fst (collapseImages sampleDraws
        (placeholderPrefix @ sampleHtmlImage) emptyCollapseState))
     = placeholderPrefix @ placeholder (js ''img-a'')"
  by (simp add: collapseImages_def htmlImgMatch_def htmlImgTail_def mdImgMatch_def
      collapseCallback_def matchedText_def placeholder_def placeholderPrefix_def
      cameraSign_def js_def sampleDraws_def sampleHtmlImage_def emptyCollapseState_def
      restoreImages_def restoreMatch_def placeholderMatch_def storedOrMatch_def
      objectPrototypeKeys_def)

text \<open>
  C2, amended. Restoring right after collapsing gives the text back when the text
  contains no placeholder prefix, the draws used are pairwise distinct (and in base 36),
  and no stored original contains the placeholder prefix, that is, no match of the
  Markdown pattern has taken in a placeholder of the HTML pass. When neither pattern
  matches anywhere in the text, collapsing leaves the text and the store as they are.
\<close>

theorem collapse_restore_roundtrip:
  "(\<not> occursIn placeholderPrefix x \<and> base36Draws rnd \<and>
    inj_on rnd {draws st ..< draws (snd (collapseImages rnd x st))} \<and>
    prefixFree (imageStore (snd (collapseImages rnd x st))) \<longrightarrow>
      restoreImages (imageStore (snd (collapseImages rnd x st)))
        (fst (collapseImages rnd x st)) = x) \<and>
   (\<not> matchesAnywhere htmlImgMatch x \<and> \<not> matchesAnywhere mdImgMatch x \<longrightarrow>
      collapseImages rnd x st = (x, st))"
proof (intro conjI impI)
  assume "\<not> occursIn placeholderPrefix x \<and> base36Draws rnd \<and>
    inj_on rnd {draws st ..< draws (snd (collapseImages rnd x st))} \<and>
    prefixFree (imageStore (snd (collapseImages rnd x st)))"
  then show "restoreImages (imageStore (snd (collapseImages rnd x st)))
        (fst (collapseImages rnd x st)) = x"
    using collapse_roundtrip [of x rnd st "fst (collapseImages rnd x st)"
        "snd (collapseImages rnd x st)"] by simp
next
  assume "\<not> matchesAnywhere htmlImgMatch x \<and> \<not> matchesAnywhere mdImgMatch x"
  then show "collapseImages rnd x st = (x, st)"
    by (simp add: collapseImages_def replaceAllSt_no_match)
qed

theorem collapse_restore_roundtrip_witness:
  "\<not> occursIn placeholderPrefix (js ''x'' @ sampleHtmlImage @ js ''y '' @ sampleMdImage) \<and>
   base36Draws sampleDraws \<and>
   inj_on sampleDraws
     {draws emptyCollapseState ..<
      draws (snd (collapseImages sampleDraws
        (js ''x'' @ sampleHtmlImage @ js ''y '' @ sampleMdImage) emptyCollapseState))} \<and>
   prefixFree (imageStore (snd (collapseImages sampleDraws
        (js ''x'' @ sampleHtmlImage @ js ''y '' @ sampleMdImage) emptyCollapseState))) \<and>
   fst (collapseImages sampleDraws
        (js ''x'' @ sampleHtmlImage @ js ''y '' @ sampleMdImage) emptyCollapseState)
     = js ''x'' @ placeholder (js ''img-a'') @ js ''y '' @ placeholder (js ''img-aa'') \<and>
   restoreImages
     (imageStore (snd (collapseImages sampleDraws
        (js ''x'' @ sampleHtmlImage @ js ''y '' @ sampleMdImage) emptyCollapseState)))
     (fst (collapseImages sampleDraws
        (js ''x'' @ sampleHtmlImage @ js ''y '' @ sampleMdImage) emptyCollapseState))
     = js ''x'' @ sampleHtmlImage @ js ''y '' @ sampleMdImage \<and>
   \<not> matchesAnywhere htmlImgMatch (js ''# Title'') \<and>
   \<not> matchesAnywhere mdImgMatch (js ''# Title'') \<and>
   collapseImages sampleDraws (js ''# Title'') emptyCollapseState
     = (js ''# Title'', emptyCollapseState)"
proof -
  let ?x = "js ''x'' @ sampleHtmlImage @ js ''y '' @ sampleMdImage"
  have ev: "collapseImages sampleDraws ?x emptyCollapseState =
    (js ''x'' @ placeholder (js ''img-a'') @ js ''y '' @ placeholder (js ''img-aa''),
     \<lparr>imageStore = [js ''img-a'' \<mapsto> sampleHtmlImage, js ''img-aa'' \<mapsto> sampleMdImage],
      draws = 2\<rparr>)"
    by (simp add: sampleHtmlImage_def sampleMdImage_def emptyCollapseState_def
        collapseImages_def htmlImgMatch_def htmlImgTail_def mdImgMatch_def
        collapseCallback_def matchedText_def placeholder_def placeholderPrefix_def
        cameraSign_def js_def sampleDraws_def)
  have h1: "\<not> occursIn placeholderPrefix ?x"
    by (simp add: sampleHtmlImage_def sampleMdImage_def occursIn_def placeholderPrefix_def
        cameraSign_def js_def)
  have h2: "base36Draws sampleDraws"
    by (simp add: base36Draws_def sampleDraws_def isLower_def)
  have "inj_on sampleDraws {0 ..< 2}"
    by (auto simp: inj_on_def sampleDraws_def dest: arg_cong [where f = length])
  then have h3: "inj_on sampleDraws
     {draws emptyCollapseState ..< draws (snd (collapseImages sampleDraws ?x emptyCollapseState))}"
    unfolding ev by (simp add: emptyCollapseState_def)
  have "prefixFree [js ''img-a'' \<mapsto> sampleHtmlImage, js ''img-aa'' \<mapsto> sampleMdImage]"
    by (simp add: prefixFree_def sampleHtmlImage_def sampleMdImage_def occursIn_def
        placeholderPrefix_def cameraSign_def js_def)
  then have h4: "prefixFree (imageStore (snd (collapseImages sampleDraws ?x
      emptyCollapseState)))"
    unfolding ev by simp
  have h5: "\<not> matchesAnywhere htmlImgMatch (js ''# Title'')"
    "\<not> matchesAnywhere mdImgMatch (js ''# Title'')"
    by (simp_all add: matchesAnywhere_def htmlImgMatch_def mdImgMatch_def js_def)
  note rt = collapse_restore_roundtrip [of ?x sampleDraws emptyCollapseState]
  have c1: "restoreImages
     (imageStore (snd (collapseImages sampleDraws ?x emptyCollapseState)))
     (fst (collapseImages sampleDraws ?x emptyCollapseState)) = ?x"
    by (rule rt [THEN conjunct1, rule_format]) (intro conjI h1 h2 h3 h4)
  have c2: "collapseImages sampleDraws (js ''# Title'') emptyCollapseState
     = (js ''# Title'', emptyCollapseState)"
    by (rule collapse_restore_roundtrip [THEN conjunct2, rule_format]) (intro conjI h5)
  have c0: "fst (collapseImages sampleDraws ?x emptyCollapseState)
     = js ''x'' @ placeholder (js ''img-a'') @ js ''y '' @ placeholder (js ''img-aa'')"
    unfolding ev by simp
  show ?thesis
    by (intro conjI; (rule h1 h2 h3 h4 h5 c0 c1 c2))
qed

section \<open>Results: the content accessor\<close>

text \<open>
  While the collapse flag is set, the accessor restores the textarea's text from the
  store.
\<close>

lemma getContent_collapsed:
  "editorTextarea ed = Some v \<Longrightarrow> imagesCollapsed ed
     \<Longrightarrow> getContent ed = restoreImages (imageStore ed) v"
  by (simp add: getContent_def)

text \<open>
  C10 fails on the code. The accessor restores only while the collapse flag is set, and
  the undo history holds the textarea's text as it was, collapsed or not. Load a document
  with one image, collapse, type \<open>x\<close> and \<open>y\<close> behind the placeholder, expand and
  undo once: the textarea holds the placeholder again, the flag is off, the id is still
  in the store, and the accessor hands the placeholder to the export.
\<close>

theorem getContent_leaks_placeholder_after_undo:
  "(case undo (toggleImageCollapse sampleDraws
            (inputEvent (placeholder (js ''img-a'') @ js ''xy'')
              (inputEvent (placeholder (js ''img-a'') @ js ''x'')
                (toggleImageCollapse sampleDraws
                  (setContent sampleHtmlImage initialEditor))))) of
      Inl e \<Rightarrow> False
    | Inr ed \<Rightarrow>
        getContent ed = placeholder (js ''img-a'') @ js ''x'' \<and>
        imageStore ed (js ''img-a'') = Some sampleHtmlImage \<and>
        \<not> imagesCollapsed ed \<and>
        restoreImages (imageStore ed) (getContent ed) = sampleHtmlImage @ js ''x'')"
proof -
  have c: "toggleImageCollapse sampleDraws (setContent sampleHtmlImage initialEditor)
           = \<lparr>imageStore = [js ''img-a'' \<mapsto> sampleHtmlImage], draws = 1,
              editorTextarea = Some (placeholder (js ''img-a'')), imagesCollapsed = True,
              history = [], historyIndex = - 1\<rparr>"
    by (simp add: toggleImageCollapse_def setContent_def initialEditor_def collapseImages_def
        sampleHtmlImage_def js_def htmlImgMatch_def htmlImgTail_def collapseCallback_def
        sampleDraws_def placeholder_def placeholderPrefix_def cameraSign_def mdImgMatch_def
        matchedText_def)
  have r: "restoreImages [js ''img-a'' \<mapsto> sampleHtmlImage] (placeholder (js ''img-a'') @ t)
           = sampleHtmlImage @ restoreImages [js ''img-a'' \<mapsto> sampleHtmlImage] t" for t
    using restore_token [of "js ''img-a''" "[js ''img-a'' \<mapsto> sampleHtmlImage]" t]
    by (simp add: storedOrMatch_def js_def sampleHtmlImage_def)
  have t: "restoreImages [js ''img-a'' \<mapsto> sampleHtmlImage] (js ''xy'') = js ''xy''"
    "restoreImages [js ''img-a'' \<mapsto> sampleHtmlImage] (js ''x'') = js ''x''"
    by (simp_all add: restore_no_close js_def)
  have ne: "js ''x'' \<noteq> js ''xy''"
    by (simp add: js_def)
  show ?thesis
    unfolding c
    by (simp add: inputEvent_def saveToHistory_def MAX_HISTORY_def toggleImageCollapse_def
        undo_def getContent_def r t ne Let_def)
qed

section \<open>Results: text blocks\<close>

text \<open>Evaluating the rounding on numerals.\<close>

lemma log2floor_numeral:
  "log2floor 0 = 0"
  "log2floor 1 = 0"
  "log2floor (Suc 0) = 0"
  "log2floor (numeral (Num.Bit0 k)) = Suc (log2floor (numeral k))"
  "log2floor (numeral (Num.Bit1 k)) = Suc (log2floor (numeral k))"
proof -
  show "log2floor 0 = 0" "log2floor 1 = 0" "log2floor (Suc 0) = 0"
    by (simp_all add: log2floor.simps)
  have "(1::nat) \<le> numeral k" by (rule one_le_numeral)
  then have pos: "\<not> numeral (Num.Bit0 k) < (2::nat)" "\<not> numeral (Num.Bit1 k) < (2::nat)"
    unfolding numeral_Bit0 [of k] numeral_Bit1 [of k] by linarith+
  have d0: "numeral (Num.Bit0 k) div (2::nat) = numeral k" by simp
  have d1: "numeral (Num.Bit1 k) div (2::nat) = numeral k" by simp
  show "log2floor (numeral (Num.Bit0 k)) = Suc (log2floor (numeral k))"
    by (subst log2floor.simps) (simp only: pos d0 if_False)
  show "log2floor (numeral (Num.Bit1 k)) = Suc (log2floor (numeral k))"
    by (subst log2floor.simps) (simp only: pos d1 if_False)
qed

lemma floor_rat_numeral: "\<lfloor>(numeral a :: rat) / numeral b\<rfloor> = numeral a div numeral b"
  by (metis floor_divide_of_int_eq of_int_numeral)

lemma ceiling_rat_numeral:
  "\<lceil>(numeral a :: rat) / numeral b\<rceil> = - (- numeral a div numeral b)"
  using ceiling_divide_eq_div [of "numeral a" "numeral b", where 'a = rat] by simp

lemmas roundDouble_eval = roundDouble_def exponentOf_def pow2_def roundHalfEven_def Let_def gapExceeds_def
  log2floor_numeral floor_rat_numeral ceiling_rat_numeral


lemma trim_Nil_iff: "trim s = [] \<longleftrightarrow> \<not> nonBlank s"
proof -
  have a: "dropWhile isWhiteSpace t = [] \<longleftrightarrow> \<not> nonBlank t" for t
    by (auto simp: dropWhile_eq_Nil_conv nonBlank_def)
  have "trim s = [] \<longleftrightarrow> dropWhile isWhiteSpace (rev (dropWhile isWhiteSpace s)) = []"
    unfolding trim_def by simp
  also have "\<dots> \<longleftrightarrow> \<not> nonBlank (rev (dropWhile isWhiteSpace s))" by (rule a)
  also have "\<dots> \<longleftrightarrow> \<not> nonBlank (dropWhile isWhiteSpace s)" by (simp add: nonBlank_def)
  also have "\<dots> \<longleftrightarrow> \<not> nonBlank s"
  proof
    assume n: "\<not> nonBlank (dropWhile isWhiteSpace s)"
    show "\<not> nonBlank s"
    proof
      assume "nonBlank s"
      then have "dropWhile isWhiteSpace s \<noteq> []" using a by blast
      then have "\<not> isWhiteSpace (hd (dropWhile isWhiteSpace s))"
        and "hd (dropWhile isWhiteSpace s) \<in> set (dropWhile isWhiteSpace s)"
        by (simp_all add: hd_dropWhile)
      with n show False unfolding nonBlank_def by blast
    qed
  next
    assume "\<not> nonBlank s"
    then show "\<not> nonBlank (dropWhile isWhiteSpace s)"
      unfolding nonBlank_def using set_dropWhileD by fastforce
  qed
  finally show ?thesis .
qed

lemma nonBlank_mono: "nonBlank s \<Longrightarrow> set s \<subseteq> set t \<Longrightarrow> nonBlank t"
  by (auto simp: nonBlank_def)

lemma set_replaceAll_keeps:
  assumes "\<And>t r rest. m t = Some (r, rest) \<Longrightarrow> length rest < length t
             \<Longrightarrow> set t \<subseteq> set r \<union> set rest"
  shows "set s \<subseteq> set (replaceAll m s)"
proof (induction s rule: length_induct)
  case (1 s)
  show ?case
  proof (cases s)
    case Nil
    then show ?thesis by simp
  next
    case (Cons c cs)
    have ih: "set cs \<subseteq> set (replaceAll m cs)" using 1 Cons by simp
    show ?thesis
    proof (cases "m (c # cs)")
      case None
      with ih show ?thesis by (auto simp: Cons)
    next
      case (Some a)
      obtain r rest where a: "a = (r, rest)" by (cases a)
      show ?thesis
      proof (cases "length rest < length (c # cs)")
        case True
        with 1 Cons have "set rest \<subseteq> set (replaceAll m rest)" by simp
        moreover from assms Some a True have "set (c # cs) \<subseteq> set r \<union> set rest" by blast
        ultimately show ?thesis using Some a True by (auto simp: Cons)
      next
        case False
        with Some a ih show ?thesis by (auto simp: Cons)
      qed
    qed
  qed
qed

lemma pairMatch_keeps:
  "pairMatch P Q t = Some (r, rest) \<Longrightarrow> set t \<subseteq> set r \<union> set rest"
  by (induction P Q t rule: pairMatch.induct) (auto split: if_splits)

lemma tripleMatch_keeps:
  "tripleMatch t = Some (r, rest) \<Longrightarrow> set t \<subseteq> set r \<union> set rest"
  by (induction t rule: tripleMatch.induct) (auto split: if_splits)

lemma set_pair: "set s \<subseteq> set (replaceAll (pairMatch P Q) s)"
  by (rule set_replaceAll_keeps) (rule pairMatch_keeps)

lemma set_triple: "set s \<subseteq> set (replaceAll tripleMatch s)"
  by (rule set_replaceAll_keeps) (rule tripleMatch_keeps)

lemma set_repairSpacing: "set s \<subseteq> set (repairSpacing s)"
  unfolding repairSpacing_def Let_def
  apply (rule order_trans [OF _ set_pair])
  apply (rule order_trans [OF _ set_pair])
  apply (rule order_trans [OF _ set_triple])
  apply (rule order_trans [OF _ set_pair])
  apply (rule order_trans [OF _ set_pair])
  apply (rule order_trans [OF _ set_pair])
  apply (rule order_trans [OF _ set_pair])
  apply (rule order_trans [OF _ set_pair])
  apply (rule order_trans [OF _ set_pair])
  apply (rule set_pair)
  done

lemma nonBlank_append: "nonBlank a \<or> nonBlank b \<Longrightarrow> nonBlank (a @ b)"
  by (auto simp: nonBlank_def)

lemma nonBlank_digits: "s \<noteq> [] \<Longrightarrow> \<forall>c\<in>set s. isDigit c \<Longrightarrow> nonBlank s"
  by (cases s) (auto simp: nonBlank_def isDigit_def isWhiteSpace_def)

lemma nonBlank_lower_letter: "isLetter l \<Longrightarrow> nonBlank (toLowerCase [l])"
  by (auto simp: nonBlank_def toLowerCase_def isLetter_def isUpper_def isLower_def isWhiteSpace_def)

lemma numberedMatch_digits:
  "numberedMatch t = Some (num, rest) \<Longrightarrow> num \<noteq> [] \<and> (\<forall>c\<in>set num. isDigit c)"
  by (auto simp: numberedMatch_def Let_def split: list.splits if_splits dest: set_takeWhileD)

lemma mergedNumberMatch_digits:
  "mergedNumberMatch t = Some (num, rest) \<Longrightarrow> num \<noteq> [] \<and> (\<forall>c\<in>set num. isDigit c)"
  by (auto simp: mergedNumberMatch_def Let_def split: list.splits if_splits dest: set_takeWhileD)

lemma letteredMatch_letter: "letteredMatch t = Some (l, rest) \<Longrightarrow> isLetter l"
  by (induction t rule: letteredMatch.induct) (auto split: if_splits)

lemma romanTail_roman: "romanTail roman s = Some (r, rest) \<Longrightarrow> r = roman"
  by (auto simp: romanTail_def split: list.splits if_splits)

lemma romanRun_roman:
  assumes "romanRun lo hi lead s = Some (r, rest)"
  shows "r = lead @ takeWhile isI s \<and> lo \<le> length (takeWhile isI s)"
  using assms by (auto simp: romanRun_def Let_def split: if_splits dest: romanTail_roman)

lemma orElse_Some: "orElse a b = Some r \<Longrightarrow> a = Some r \<or> b = Some r"
  by (auto simp: orElse_def split: option.splits)

lemma romanMatch_roman:
  assumes "romanMatch t = Some (r, rest)"
  shows "r \<noteq> [] \<and> (\<forall>c\<in>set r. isI c \<or> isV c)"
proof -
  have iset: "\<forall>c\<in>set (takeWhile isI s). isI c" for s by (auto dest: set_takeWhileD)
  from assms consider "romanRun 1 3 [] t = Some (r, rest)" | "ivAlternative t = Some (r, rest)"
    | "vAlternative t = Some (r, rest)" | "viAlternative t = Some (r, rest)"
    unfolding romanMatch_def by (auto dest!: orElse_Some)
  then show ?thesis
  proof cases
    case 1
    from romanRun_roman [OF this] iset [of t] show ?thesis by (cases "takeWhile isI t") auto
  next
    case 2
    then show ?thesis
      by (auto simp: ivAlternative_def split: list.splits if_splits dest: romanTail_roman)
  next
    case 3
    then show ?thesis
      by (auto simp: vAlternative_def split: list.splits if_splits dest: romanTail_roman)
  next
    case 4
    then obtain a u where t: "t = a # u" "isV a" and "romanRun 0 3 [a] u = Some (r, rest)"
      by (auto simp: viAlternative_def split: list.splits if_splits)
    from romanRun_roman [OF this(3)] iset [of u] t show ?thesis by auto
  qed
qed

lemma nonBlank_roman:
  "r \<noteq> [] \<Longrightarrow> \<forall>c\<in>set r. isI c \<or> isV c \<Longrightarrow> nonBlank (toLowerCase r)"
  by (cases r) (auto simp: nonBlank_def toLowerCase_def isI_def isV_def isUpper_def isWhiteSpace_def)

lemma nonBlank_numberedItem: "numberedItem t = Some r \<Longrightarrow> nonBlank r"
proof -
  assume "numberedItem t = Some r"
  then obtain num rest where m: "numberedMatch t = Some (num, rest)"
    and r: "r = num @ js ''. '' @ rest"
    by (auto simp: numberedItem_def split: option.splits if_splits)
  from numberedMatch_digits [OF m] have "nonBlank num" by (intro nonBlank_digits) auto
  then show ?thesis unfolding r by (intro nonBlank_append disjI1)
qed

lemma nonBlank_mergedItem: "mergedItem t = Some r \<Longrightarrow> nonBlank r"
proof -
  assume "mergedItem t = Some r"
  then obtain num rest where m: "mergedNumberMatch t = Some (num, rest)"
    and r: "r = num @ js ''. '' @ rest"
    by (auto simp: mergedItem_def split: option.splits if_splits)
  from mergedNumberMatch_digits [OF m] have "nonBlank num" by (intro nonBlank_digits) auto
  then show ?thesis unfolding r by (intro nonBlank_append disjI1)
qed

lemma nonBlank_letteredItem: "letteredItem t = Some r \<Longrightarrow> nonBlank r"
proof -
  assume "letteredItem t = Some r"
  then obtain l rest where "letteredMatch t = Some (l, rest)"
    and r: "r = replicate 4 SP @ toLowerCase [l] @ js ''. '' @ rest"
    by (auto simp: letteredItem_def split: option.splits)
  then have "nonBlank (toLowerCase [l])"
    using letteredMatch_letter nonBlank_lower_letter by blast
  then show ?thesis unfolding r by (intro nonBlank_append disjI2 disjI1)
qed

lemma nonBlank_romanItem: "romanItem t = Some r \<Longrightarrow> nonBlank r"
proof -
  assume "romanItem t = Some r"
  then obtain roman rest where m: "romanMatch t = Some (roman, rest)"
    and r: "r = replicate 8 SP @ toLowerCase roman @ js ''. '' @ rest"
    by (auto simp: romanItem_def split: option.splits)
  from romanMatch_roman [OF m] have "nonBlank (toLowerCase roman)"
    using nonBlank_roman by blast
  then show ?thesis unfolding r by (intro nonBlank_append disjI2 disjI1)
qed

lemma nonBlank_bulletOrPlain:
  assumes "nonBlank t"
  shows "nonBlank (bulletOrPlain indent t)"
proof -
  have dash: "nonBlank (js ''- '' @ u)" for u by (simp add: nonBlank_def js_def isWhiteSpace_def)
  from assms obtain c cs where t: "t = c # cs" by (cases t) (auto simp: nonBlank_def)
  show ?thesis
  proof (cases "isBullet c")
    case True
    have "nonBlank (indent @ js ''- '' @ dropWhile isWhiteSpace cs)"
      by (intro nonBlank_append disjI2 dash)
    with True show ?thesis by (simp add: bulletOrPlain_def t)
  next
    case False
    have "nonBlank (indent @ t)" using assms by (intro nonBlank_append disjI2)
    with False assms show ?thesis by (simp add: bulletOrPlain_def t)
  qed
qed

lemma nonBlank_classifyList:
  assumes "nonBlank t"
  shows "nonBlank (classifyList indent t)"
proof (cases "orElse (numberedItem t)
                 (orElse (mergedItem t) (orElse (letteredItem t) (romanItem t)))")
  case None
  with assms show ?thesis by (simp add: classifyList_def nonBlank_bulletOrPlain)
next
  case (Some r)
  then consider "numberedItem t = Some r" | "mergedItem t = Some r"
    | "letteredItem t = Some r" | "romanItem t = Some r"
    by (auto dest!: orElse_Some)
  then have "nonBlank r"
    using nonBlank_numberedItem nonBlank_mergedItem nonBlank_letteredItem nonBlank_romanItem
    by cases blast+
  with Some show ?thesis by (simp add: classifyList_def)
qed

lemma nonBlank_classifyLine:
  assumes "nonBlank t"
  shows "nonBlank (classifyLine items t)"
proof -
  have "nonBlank (p @ t)" "nonBlank (p @ t @ q)" for p q
    using assms by (auto intro!: nonBlank_append)
  then show ?thesis
    using nonBlank_classifyList [OF assms]
    by (simp add: classifyLine_def Let_def)
qed

lemma gapExceeds_same [simp]: "\<not> gapExceeds y y (Finite 3)"
  by (simp add: gapExceeds_def roundDouble_def)

lemma processTextBlock_single:
  "processTextBlock [g] = classifyLine [g] (repairSpacing (trim (g_str g)))"
  by (simp add: processTextBlock_def processLine_def joinLineItems_def)

lemma nonBlank_trim: "nonBlank s \<Longrightarrow> nonBlank (trim s)"
  using trim_Nil_iff [of "trim s"] trim_Nil_iff [of s] by (simp add: trim_idem)

lemma nonBlank_processTextBlock_single:
  assumes "nonBlank (g_str g)"
  shows "nonBlank (processTextBlock [g])"
proof -
  from assms have "nonBlank (trim (g_str g))" by (rule nonBlank_trim)
  then have "nonBlank (repairSpacing (trim (g_str g)))"
    using set_repairSpacing by (rule nonBlank_mono)
  then show ?thesis unfolding processTextBlock_single by (rule nonBlank_classifyLine)
qed


lemma repair_Introduction: "repairSpacing (trim (js ''Introduction'')) = js ''Introduction''"
  by (simp add: repairSpacing_def trim_def js_def isLower_def isUpper_def isDigit_def
      isLetter_def isWhiteSpace_def)

lemma nonBlank_Introduction: "nonBlank (js ''Introduction'')" "nonBlank (js ''# Introduction'')"
  by (simp_all add: nonBlank_def js_def isWhiteSpace_def)


lemma tb_items_addRuns:
  "tb_items (foldl addRun block items) = tb_items block @ map glyphOf items"
  by (induction items arbitrary: block) (simp_all add: addRun_def)

lemma tb_maxY_addRuns:
  "tb_maxY block = Some m \<Longrightarrow>
   tb_maxY (foldl addRun block items) = Some (Max (insert m (baseline ` set items)))"
proof (induction items arbitrary: block m)
  case Nil
  then show ?case by simp
next
  case (Cons item items)
  have "tb_maxY (addRun block item) = Some (max m (baseline item))"
    using Cons.prems by (simp add: addRun_def)
  from Cons.IH [OF this]
  have "tb_maxY (foldl addRun (addRun block item) items)
          = Some (Max (insert (max m (baseline item)) (baseline ` set items)))" .
  also have "Max (insert (max m (baseline item)) (baseline ` set items))
          = Max (insert m (baseline ` set (item # items)))"
  proof (cases "items = []")
    case True
    then show ?thesis by (simp add: max.commute)
  next
    case False
    then have ne: "baseline ` set items \<noteq> {}" by simp
    have fin: "finite (baseline ` set items)" by simp
    show ?thesis
      by (simp add: Max_insert [OF fin ne] Max_insert [of "insert (baseline item) (baseline ` set items)"]
          max.assoc)
  qed
  finally show ?case by simp
qed

lemma blockLoop_closeRuns:
  assumes "list_all (\<lambda>item. trim (ti_str item) \<noteq> []) items" and "closeRuns l items"
  shows "blockLoop items block (Some l) = closeBlock (foldl addRun block items)"
  using assms
proof (induction items arbitrary: block l)
  case Nil
  show ?case by simp
next
  case (Cons item items)
  from Cons.prems have ne: "ti_str item \<noteq> []" "trim (ti_str item) \<noteq> []"
    by (auto simp: trim_def)
  from Cons.prems
  have near: "\<not> gapExceeds (baseline item) l (roundDouble (mathRound (ti_height item) * (3 / 2)))"
    and rest: "list_all (\<lambda>item. trim (ti_str item) \<noteq> []) items" "closeRuns (baseline item) items"
    by simp_all
  have "blockLoop (item # items) block (Some l)
          = blockLoop items (addRun block item) (Some (baseline item))"
    unfolding addRun_def glyphOf_def baseline_def
    using ne near [unfolded baseline_def] by (simp add: Let_def)
  also have "\<dots> = closeBlock (foldl addRun (addRun block item) items)"
    by (rule Cons.IH [OF rest])
  finally show ?case by simp
qed

lemma groupLines_lines:
  "line \<in> set (groupLines items cur lastY) \<Longrightarrow> line \<noteq> [] \<and> set line \<subseteq> set cur \<union> set items"
  by (induction items cur lastY rule: groupLines.induct) (auto split: if_splits)

lemma groupLines_nonempty:
  "items \<noteq> [] \<or> cur \<noteq> [] \<Longrightarrow> groupLines items cur lastY \<noteq> []"
  by (induction items cur lastY rule: groupLines.induct) (auto split: if_splits)

lemma nonBlank_processLine:
  assumes ne: "line \<noteq> []" and nb: "\<forall>g\<in>set line. nonBlank (g_str g)"
  shows "nonBlank (processLine line)"
proof -
  from ne have "sort_key g_x line \<noteq> []" by (metis length_sort length_0_conv)
  then obtain item items where s: "sort_key g_x line = item # items"
    by (cases "sort_key g_x line") auto
  then have "item \<in> set line" by (metis list.set_intros(1) set_sort)
  with nb have "nonBlank (g_str item)" by blast
  then have "nonBlank (g_str item @ gapJoin lastEndX items)" for lastEndX
    by (intro nonBlank_append disjI1)
  then have "nonBlank (joinLineItems line)"
    unfolding joinLineItems_def s by (simp add: nonBlank_trim)
  then have "nonBlank (repairSpacing (joinLineItems line))"
    using set_repairSpacing by (rule nonBlank_mono)
  then show ?thesis unfolding processLine_def by (rule nonBlank_classifyLine)
qed

lemma nonBlank_joinLines:
  "ls \<noteq> [] \<Longrightarrow> \<forall>l\<in>set ls. nonBlank l \<Longrightarrow> nonBlank (joinLines ls)"
  by (induction ls rule: joinLines.induct) (auto intro: nonBlank_append)

lemma nonBlank_processTextBlock:
  assumes ne: "items \<noteq> []" and nb: "\<forall>g\<in>set items. nonBlank (g_str g)"
  shows "nonBlank (processTextBlock items)"
proof -
  from ne obtain item rest where items: "items = item # rest" by (cases items) auto
  let ?lines = "groupLines items [] (g_y item)"
  have "?lines \<noteq> []" using ne by (intro groupLines_nonempty) simp
  moreover have "\<forall>l\<in>set (map processLine ?lines). nonBlank l"
  proof
    fix l assume "l \<in> set (map processLine ?lines)"
    then obtain line where line: "line \<in> set ?lines" and l: "l = processLine line" by auto
    from groupLines_lines [OF line] nb show "nonBlank l"
      unfolding l by (intro nonBlank_processLine) auto
  qed
  ultimately have "nonBlank (joinLines (map processLine ?lines))"
    by (intro nonBlank_joinLines) simp_all
  then show ?thesis by (simp add: processTextBlock_def items)
qed

lemma mathRound_24: "mathRound 24 = 24"
  unfolding mathRound_def by (simp, rule floor_unique; simp)

lemma mathRound_11: "mathRound 11 = 11"
  unfolding mathRound_def by (simp, rule floor_unique; simp)

lemma heading_block:
  "closeBlock (addRun emptyBlock
     \<lparr>ti_str = js ''Introduction'', ti_transform = (a0, b0, c0, d0, x0, y0), ti_height = 24,
      ti_fontName = f0\<rparr>)
   = [\<lparr>tb_items = [\<lparr>g_str = js ''Introduction'', g_x = x0, g_y = y0, g_fontSize = 24,
                     g_fontName = f0\<rparr>],
       tb_y = y0, tb_minY = Some y0, tb_maxY = Some y0, tb_text = js ''# Introduction''\<rparr>]"
proof -
  define g0 where "g0 = \<lparr>g_str = js ''Introduction'', g_x = x0, g_y = y0, g_fontSize = 24,
    g_fontName = f0\<rparr>"
  have "js ''# '' @ js ''Introduction'' = js ''# Introduction''" by (simp add: js_def)
  then have t0: "processTextBlock [g0] = js ''# Introduction''"
    by (simp add: processTextBlock_single g0_def repair_Introduction classifyLine_def
        sumFontSizes_def)
  have hne: "trim (js ''# Introduction'') \<noteq> []"
    using nonBlank_Introduction by (simp add: trim_Nil_iff)
  show ?thesis
    using t0 hne
    by (simp add: closeBlock_def addRun_def emptyBlock_def glyphOf_def baseline_def
        mathRound_24 Let_def g0_def)
qed

text \<open>
  C5. A run \<open>Introduction\<close> of height 24 followed by one or more paragraph runs of height
  11 and non-blank text, the first of them further from the baseline of the heading than 1.5
  times 11 and every later one no further than that from the run before it, gives exactly
  two blocks: the first is the heading run alone, placed at its baseline, with the text
  \<open># Introduction\<close>, and the second holds all the paragraph runs, placed at the highest of
  their baselines. The gaps are the differences of the baselines as the source computes
  them, in double arithmetic. Positions, transforms and font names are arbitrary.
\<close>

theorem heading_then_paragraph:
  assumes runs: "list_all paragraphRun (p # ps)"
    and gap: "gapExceeds (baseline p) y0 (roundDouble (11 * (3 / 2)))"
    and near: "closeRuns (baseline p) ps"
  shows "\<exists>b1 b2.
    extractTextBlocks
      (\<lparr>ti_str = js ''Introduction'', ti_transform = (a0, b0, c0, d0, x0, y0), ti_height = 24,
        ti_fontName = f0\<rparr> # p # ps) = [b1, b2] \<and>
    tb_text b1 = js ''# Introduction'' \<and> tb_y b1 = y0 \<and>
    map g_str (tb_items b1) = [js ''Introduction''] \<and>
    map g_str (tb_items b2) = map ti_str (p # ps) \<and>
    tb_y b2 = Max (baseline ` set (p # ps))"
proof -
  let ?h = "\<lparr>ti_str = js ''Introduction'', ti_transform = (a0, b0, c0, d0, x0, y0),
    ti_height = 24, ti_fontName = f0\<rparr>"
  let ?B = "foldl addRun (addRun emptyBlock p) ps"
  from runs have h11: "ti_height p = 11" and pne: "trim (ti_str p) \<noteq> []" "ti_str p \<noteq> []"
    and rest: "list_all (\<lambda>item. trim (ti_str item) \<noteq> []) ps"
    by (auto simp: paragraphRun_def list_all_iff trim_def)
  have hne: "js ''Introduction'' \<noteq> []" "trim (js ''Introduction'') \<noteq> []"
    using nonBlank_Introduction by (auto simp: trim_Nil_iff nonBlank_def)
  have first: "blockLoop (?h # p # ps) emptyBlock None
                 = blockLoop (p # ps) (addRun emptyBlock ?h) (Some y0)"
    unfolding addRun_def glyphOf_def baseline_def
    using hne by (simp add: Let_def emptyBlock_def)
  have second: "blockLoop (p # ps) (addRun emptyBlock ?h) (Some y0)
                 = closeBlock (addRun emptyBlock ?h)
                   @ blockLoop ps (addRun emptyBlock p) (Some (baseline p))"
    unfolding addRun_def glyphOf_def baseline_def
    using pne gap [unfolded baseline_def] h11
    by (simp add: Let_def emptyBlock_def mathRound_11)
  have third: "blockLoop ps (addRun emptyBlock p) (Some (baseline p)) = closeBlock ?B"
    by (rule blockLoop_closeRuns [OF rest near])
  have items: "tb_items ?B = map glyphOf (p # ps)"
    by (simp add: tb_items_addRuns) (simp add: addRun_def emptyBlock_def)
  have "tb_maxY (addRun emptyBlock p) = Some (baseline p)"
    by (simp add: addRun_def emptyBlock_def)
  from tb_maxY_addRuns [OF this]
  have maxY: "tb_maxY ?B = Some (Max (baseline ` set (p # ps)))" by simp
  have "\<forall>g\<in>set (map glyphOf (p # ps)). nonBlank (g_str g)"
    using runs by (auto simp: paragraphRun_def list_all_iff glyphOf_def trim_Nil_iff)
  then have "nonBlank (processTextBlock (tb_items ?B))"
    unfolding items by (intro nonBlank_processTextBlock) simp_all
  then have kept: "trim (processTextBlock (tb_items ?B)) \<noteq> []" by (simp add: trim_Nil_iff)
  define b2 where "b2 = ?B\<lparr>tb_y := Max (baseline ` set (p # ps)),
    tb_text := processTextBlock (tb_items ?B)\<rparr>"
  have close2: "closeBlock ?B = [b2]"
    using kept items maxY by (simp add: closeBlock_def Let_def b2_def)
  have gs: "map g_str (tb_items b2) = map ti_str (p # ps)"
    unfolding b2_def by (simp add: items glyphOf_def)
  have "extractTextBlocks (?h # p # ps) = closeBlock (addRun emptyBlock ?h) @ [b2]"
    unfolding extractTextBlocks_def using first second third close2 by simp
  then show ?thesis
    unfolding heading_block using gs by (simp add: b2_def)
qed


theorem heading_then_paragraph_witness:
  "list_all paragraphRun
     [\<lparr>ti_str = js ''This is the first'', ti_transform = (11, 0, 0, 11, 72, 660),
       ti_height = 11, ti_fontName = js ''g_d0_f2''\<rparr>,
      \<lparr>ti_str = js ''paragraph of the'', ti_transform = (11, 0, 0, 11, 72, 647),
       ti_height = 11, ti_fontName = js ''g_d0_f2''\<rparr>,
      \<lparr>ti_str = js ''page.'', ti_transform = (11, 0, 0, 11, 72, 634),
       ti_height = 11, ti_fontName = js ''g_d0_f2''\<rparr>] \<and>
   gapExceeds 660 700 (roundDouble (11 * (3 / 2))) \<and>
   closeRuns 660
     [\<lparr>ti_str = js ''paragraph of the'', ti_transform = (11, 0, 0, 11, 72, 647),
       ti_height = 11, ti_fontName = js ''g_d0_f2''\<rparr>,
      \<lparr>ti_str = js ''page.'', ti_transform = (11, 0, 0, 11, 72, 634),
       ti_height = 11, ti_fontName = js ''g_d0_f2''\<rparr>] \<and>
   (\<exists>b1 b2.
      extractTextBlocks
        [\<lparr>ti_str = js ''Introduction'', ti_transform = (24, 0, 0, 24, 72, 700), ti_height = 24,
          ti_fontName = js ''g_d0_f1''\<rparr>,
         \<lparr>ti_str = js ''This is the first'', ti_transform = (11, 0, 0, 11, 72, 660),
          ti_height = 11, ti_fontName = js ''g_d0_f2''\<rparr>,
         \<lparr>ti_str = js ''paragraph of the'', ti_transform = (11, 0, 0, 11, 72, 647),
          ti_height = 11, ti_fontName = js ''g_d0_f2''\<rparr>,
         \<lparr>ti_str = js ''page.'', ti_transform = (11, 0, 0, 11, 72, 634),
          ti_height = 11, ti_fontName = js ''g_d0_f2''\<rparr>] = [b1, b2] \<and>
      tb_text b1 = js ''# Introduction'' \<and> tb_y b1 = 700 \<and>
      map g_str (tb_items b1) = [js ''Introduction''] \<and>
      map g_str (tb_items b2) = [js ''This is the first'', js ''paragraph of the'', js ''page.''] \<and>
      tb_y b2 = 660)"
proof -
  let ?r1 = "\<lparr>ti_str = js ''This is the first'', ti_transform = (11, 0, 0, 11, 72, 660),
       ti_height = 11, ti_fontName = js ''g_d0_f2''\<rparr>"
  let ?r2 = "\<lparr>ti_str = js ''paragraph of the'', ti_transform = (11, 0, 0, 11, 72, 647),
       ti_height = 11, ti_fontName = js ''g_d0_f2''\<rparr>"
  let ?r3 = "\<lparr>ti_str = js ''page.'', ti_transform = (11, 0, 0, 11, 72, 634),
       ti_height = 11, ti_fontName = js ''g_d0_f2''\<rparr>"
  have b: "baseline ?r1 = 660" "baseline ?r2 = 647" "baseline ?r3 = 634"
    by (simp_all add: baseline_def)
  have h1: "list_all paragraphRun [?r1, ?r2, ?r3]"
    by (simp add: paragraphRun_def trim_def js_def isWhiteSpace_def)
  have h2: "gapExceeds 660 700 (roundDouble (11 * (3 / 2)))"
    by (simp add: roundDouble_eval)
  have h3: "closeRuns 660 [?r2, ?r3]"
    by (simp add: b mathRound_11 roundDouble_eval)
  have m: "Max (baseline ` set [?r1, ?r2, ?r3]) = 660"
    by (simp add: b)
  from heading_then_paragraph [of ?r1 "[?r2, ?r3]" 700, unfolded b m, OF h1 h2 h3] h1 h2 h3
  show ?thesis by simp
qed

text \<open>
  The gap is the difference of the two baselines as the double subtraction gives it. The
  doubles nearest to 0.1 and to 16.6 differ by more than 16.5, and their computed
  difference is 16.5, which does not exceed 1.5 times the font size 11.
\<close>

lemma gap_is_rounded:
  "\<bar>(2336242306698445 / 140737488355328 :: rat) - 3602879701896397 / 36028797018963968\<bar>
     > 11 * (3 / 2) \<and>
   \<not> gapExceeds (2336242306698445 / 140737488355328) (3602879701896397 / 36028797018963968)
       (roundDouble (11 * (3 / 2)))"
  by (simp add: roundDouble_eval)

section \<open>Results: page assembly\<close>



section \<open>Results: word gaps\<close>

lemma joinWords_Cons:
  "joinWords (w # ws) = concat w @ (if ws = [] then [] else SP # joinWords ws)"
  by (cases ws) auto

lemma gapJoin_word:
  assumes "0 < fs"
  shows "gapJoin e (layoutWord fs y e rs @ tail)
           = concat rs @ gapJoin (e + of_nat (length (concat rs)) * (fs * (1 / 2))) tail"
proof (induction rs arbitrary: e)
  case Nil
  then show ?case by simp
next
  case (Cons r rs)
  have "\<not> (0 > fs * (1 / 2) * (1 / 5))" using assms by simp
  then show ?case using Cons [of "e + of_nat (length r) * (fs * (1 / 2))"]
    by (simp add: Let_def algebra_simps)
qed

lemma gapJoin_words:
  assumes "0 < fs"
  shows "\<forall>w\<in>set ws. w \<noteq> [] \<Longrightarrow>
     gapJoin e (layoutWords fs y (e + fs * (1 / 2)) ws)
       = (if ws = [] then [] else SP # joinWords ws)"
proof (induction ws arbitrary: e)
  case Nil
  then show ?case by simp
next
  case (Cons w ws)
  then obtain r rs where w: "w = r # rs" by (cases w) auto
  define x where "x = e + fs * (1 / 2)"
  define e' where "e' = x + of_nat (length (concat w)) * (fs * (1 / 2))"
  have gap: "x - e > fs * (1 / 2) * (1 / 5)" using assms by (simp add: x_def)
  have nx: "x + (of_nat (length (concat w)) + 1) * (fs * (1 / 2)) = e' + fs * (1 / 2)"
    by (simp add: e'_def algebra_simps)
  have ih: "gapJoin e' (layoutWords fs y (e' + fs * (1 / 2)) ws)
              = (if ws = [] then [] else SP # joinWords ws)"
    using Cons.prems by (intro Cons.IH) simp
  define g where "g = \<lparr>g_str = r, g_x = x, g_y = y, g_fontSize = fs, g_fontName = []\<rparr>"
  define rest where "rest = layoutWord fs y (x + of_nat (length r) * (fs * (1 / 2))) rs
               @ layoutWords fs y (e' + fs * (1 / 2)) ws"
  have "layoutWords fs y x (w # ws) = layoutWord fs y x w
          @ layoutWords fs y (x + (of_nat (length (concat w)) + 1) * (fs * (1 / 2))) ws"
    by simp
  then have lw: "layoutWords fs y x (w # ws) = g # rest"
    unfolding nx by (simp add: w g_def rest_def)
  have "gapJoin e (g # rest)
          = SP # r @ gapJoin (x + of_nat (length r) * (fs * (1 / 2))) rest"
    using gap by (simp add: g_def Let_def)
  then have "gapJoin e (layoutWords fs y x (w # ws))
          = SP # r @ gapJoin (x + of_nat (length r) * (fs * (1 / 2)))
              (layoutWord fs y (x + of_nat (length r) * (fs * (1 / 2))) rs
               @ layoutWords fs y (e' + fs * (1 / 2)) ws)"
    unfolding lw rest_def .
  also have "\<dots> = SP # r @ concat rs @ gapJoin e' (layoutWords fs y (e' + fs * (1 / 2)) ws)"
    unfolding gapJoin_word [OF assms] by (simp add: e'_def w algebra_simps)
  also have "\<dots> = SP # concat w @ (if ws = [] then [] else SP # joinWords ws)"
    unfolding ih by (simp add: w)
  also have "\<dots> = SP # joinWords (w # ws)" by (simp only: joinWords_Cons)
  finally have "gapJoin e (layoutWords fs y x (w # ws)) = SP # joinWords (w # ws)" .
  then show ?case unfolding x_def by (simp only: list.distinct if_False)
qed

lemma layoutWord_bounds:
  assumes "0 < fs"
  shows "\<forall>r\<in>set rs. r \<noteq> [] \<Longrightarrow>
         sorted_wrt (<) (map g_x (layoutWord fs y x rs)) \<and>
         (\<forall>g\<in>set (layoutWord fs y x rs).
            x \<le> g_x g \<and> g_x g < x + of_nat (length (concat rs)) * (fs * (1 / 2)))"
proof (induction rs arbitrary: x)
  case Nil
  then show ?case by simp
next
  case (Cons r rs)
  define x' where "x' = x + of_nat (length r) * (fs * (1 / 2))"
  from Cons.prems have "0 < length r" by simp
  then have "0 < of_nat (length r) * (fs * (1 / 2))" using assms by simp
  then have lt: "x < x'" by (simp add: x'_def)
  have e: "x + of_nat (length (concat (r # rs))) * (fs * (1 / 2))
             = x' + of_nat (length (concat rs)) * (fs * (1 / 2))"
    by (simp add: x'_def algebra_simps)
  have le: "x' \<le> x' + of_nat (length (concat rs)) * (fs * (1 / 2))" using assms by simp
  from Cons.prems have "\<forall>r\<in>set rs. r \<noteq> []" by simp
  from Cons.IH [OF this, of x'] have
    ih1: "sorted_wrt (<) (map g_x (layoutWord fs y x' rs))" and
    ih2: "\<forall>g\<in>set (layoutWord fs y x' rs).
            x' \<le> g_x g \<and> g_x g < x' + of_nat (length (concat rs)) * (fs * (1 / 2))"
    by blast+
  have lw: "layoutWord fs y x (r # rs)
              = \<lparr>g_str = r, g_x = x, g_y = y, g_fontSize = fs, g_fontName = []\<rparr>
                # layoutWord fs y x' rs"
    by (simp add: x'_def)
  show ?case
    unfolding e lw using lt le ih1 ih2 by fastforce
qed

lemma layoutWords_sorted:
  assumes "0 < fs"
  shows "\<forall>w\<in>set ws. \<forall>r\<in>set w. r \<noteq> [] \<Longrightarrow>
         sorted_wrt (<) (map g_x (layoutWords fs y x ws)) \<and>
         (\<forall>g\<in>set (layoutWords fs y x ws). x \<le> g_x g)"
proof (induction ws arbitrary: x)
  case Nil
  then show ?case by simp
next
  case (Cons w ws)
  define x' where "x' = x + (of_nat (length (concat w)) + 1) * (fs * (1 / 2))"
  have lt: "x + of_nat (length (concat w)) * (fs * (1 / 2)) < x'"
    using assms by (simp add: x'_def algebra_simps)
  have le: "x \<le> x'" using assms by (simp add: x'_def)
  from Cons.prems have "\<forall>r\<in>set w. r \<noteq> []" by simp
  from layoutWord_bounds [OF assms this, of y x] have
    w1: "sorted_wrt (<) (map g_x (layoutWord fs y x w))" and
    w2: "\<forall>g\<in>set (layoutWord fs y x w).
           x \<le> g_x g \<and> g_x g < x + of_nat (length (concat w)) * (fs * (1 / 2))"
    by blast+
  from Cons.prems have "\<forall>w\<in>set ws. \<forall>r\<in>set w. r \<noteq> []" by simp
  from Cons.IH [OF this, of x'] have
    ih1: "sorted_wrt (<) (map g_x (layoutWords fs y x' ws))" and
    ih2: "\<forall>g\<in>set (layoutWords fs y x' ws). x' \<le> g_x g"
    by blast+
  have cross: "\<forall>a\<in>set (layoutWord fs y x w). \<forall>b\<in>set (layoutWords fs y x' ws). g_x a < g_x b"
    using w2 ih2 lt by fastforce
  have lws: "layoutWords fs y x (w # ws) = layoutWord fs y x w @ layoutWords fs y x' ws"
    by (simp add: x'_def)
  show ?case
    unfolding lws using w1 w2 ih1 ih2 le cross
    by (fastforce simp: sorted_wrt_append)
qed


lemma filter_same_key:
  "distinct (map f xs) \<Longrightarrow> k \<in> set xs \<Longrightarrow> filter (\<lambda>x. f k = f x) xs = [k]"
proof (induction xs)
  case Nil
  then show ?case by simp
next
  case (Cons a xs)
  show ?case
  proof (cases "k = a")
    case True
    with Cons.prems have "\<forall>x\<in>set xs. f a \<noteq> f x" by auto
    then have "filter (\<lambda>x. f a = f x) xs = []" by (simp add: filter_empty_conv)
    with True show ?thesis by simp
  next
    case False
    with Cons.prems have k: "k \<in> set xs" and d: "distinct (map f xs)" by auto
    from Cons.prems have "f a \<notin> f ` set xs" by simp
    with k have "f k \<noteq> f a" by (metis imageI)
    with Cons.IH [OF d k] show ?thesis by simp
  qed
qed

lemma sort_key_of_permutation:
  fixes f :: "'a \<Rightarrow> rat"
  assumes "mset runs = mset L" and "sorted_wrt (<) (map f L)"
  shows "sort_key f runs = L"
proof (rule properties_for_sort_key)
  show "mset L = mset runs" using assms(1) by simp
  from assms(2) have s: "sorted (map f L)" and d: "distinct (map f L)"
    by (simp_all add: strict_sorted_iff)
  show "sorted (map f L)" by (rule s)
  from assms(1) have "mset (map f runs) = mset (map f L)" by (metis mset_map)
  with d have d': "distinct (map f runs)" by (metis mset_eq_imp_distinct_iff)
  fix k
  assume k: "k \<in> set L"
  then have "k \<in> set runs" using assms(1) by (metis mset_eq_setD)
  with d' have "filter (\<lambda>x. f k = f x) runs = [k]" by (rule filter_same_key)
  moreover from d k have "filter (\<lambda>x. f k = f x) L = [k]" by (rule filter_same_key)
  ultimately show "filter (\<lambda>x. f k = f x) L = filter (\<lambda>x. f k = f x) runs" by simp
qed

lemma last_concat_plain:
  "w \<noteq> [] \<Longrightarrow> \<forall>r\<in>set w. r \<noteq> [] \<Longrightarrow> concat w \<noteq> [] \<and> last (concat w) = last (last w)
     \<and> hd (concat w) = hd (hd w)"
proof (induction w)
  case Nil
  then show ?case by simp
next
  case (Cons r w)
  then show ?case by (cases "w = []") auto
qed

lemma trimmed_joinWords:
  assumes "plainWords ws" and "ws \<noteq> []"
  shows "joinWords ws \<noteq> [] \<and> \<not> isWhiteSpace (hd (joinWords ws))
           \<and> \<not> isWhiteSpace (last (joinWords ws))"
  using assms
proof (induction ws)
  case Nil
  then show ?case by simp
next
  case (Cons w ws)
  from Cons.prems have w: "w \<noteq> []" "\<forall>r\<in>set w. r \<noteq> []"
    and c: "\<forall>r\<in>set w. \<forall>c\<in>set r. \<not> isWhiteSpace c"
    and rest: "plainWords ws"
    by (auto simp: plainWords_def)
  from last_concat_plain [OF w] have cw: "concat w \<noteq> []"
    "last (concat w) = last (last w)" "hd (concat w) = hd (hd w)" by blast+
  from w have "last w \<in> set w" "hd w \<in> set w" by simp_all
  with w c have "\<not> isWhiteSpace (last (last w))" "\<not> isWhiteSpace (hd (hd w))"
    by (metis last_in_set, metis hd_in_set)
  with cw have e: "\<not> isWhiteSpace (last (concat w))" "\<not> isWhiteSpace (hd (concat w))"
    by simp_all
  show ?case
  proof (cases "ws = []")
    case True
    with cw e show ?thesis by simp
  next
    case False
    with Cons.IH rest have "joinWords ws \<noteq> []" "\<not> isWhiteSpace (last (joinWords ws))"
      by blast+
    with cw e False show ?thesis by (simp add: joinWords_Cons)
  qed
qed

text \<open>
  C4. For a positive font size, the runs of a text of words separated by single spaces,
  laid out with known spacing and handed over in any order, are joined by the line
  reconstruction (sort by X, a space where the gap exceeds 0.2 of the average character
  width, trim) to exactly that text. This is the word and gap step of a line; the
  spacing repairs that follow it in the source are a separate step.
\<close>

theorem word_gaps_reconstructed:
  assumes fs: "0 < fontSize" and plain: "plainWords words"
    and runs: "mset runs = mset (layoutWords fontSize y x words)"
  shows "joinLineItems runs = joinWords words"
proof (cases words)
  case Nil
  with runs have "runs = []" by simp
  with Nil show ?thesis by (simp add: joinLineItems_def)
next
  case (Cons w ws)
  from plain have ne: "\<forall>w\<in>set words. w \<noteq> []" and rne: "\<forall>w\<in>set words. \<forall>r\<in>set w. r \<noteq> []"
    by (auto simp: plainWords_def)
  from ne Cons obtain r rs where w: "w = r # rs" by (cases w) auto
  define e where "e = x + of_nat (length r) * (fontSize * (1 / 2))"
  define e' where "e' = x + of_nat (length (concat w)) * (fontSize * (1 / 2))"
  define g where "g = \<lparr>g_str = r, g_x = x, g_y = y, g_fontSize = fontSize, g_fontName = []\<rparr>"
  define rest where
    "rest = layoutWord fontSize y e rs @ layoutWords fontSize y (e' + fontSize * (1 / 2)) ws"
  have nx: "x + (of_nat (length (concat w)) + 1) * (fontSize * (1 / 2))
              = e' + fontSize * (1 / 2)"
    by (simp add: e'_def algebra_simps)
  have "layoutWords fontSize y x (w # ws) = layoutWord fontSize y x w
          @ layoutWords fontSize y (x + (of_nat (length (concat w)) + 1) * (fontSize * (1 / 2))) ws"
    by simp
  then have lw: "layoutWords fontSize y x words = g # rest"
    unfolding nx Cons by (simp add: w g_def rest_def e_def)
  from layoutWords_sorted [OF fs rne, of y x] have "sorted_wrt (<) (map g_x (g # rest))"
    unfolding lw by blast
  with runs have sorted: "sort_key g_x runs = g # rest"
    unfolding lw by (rule sort_key_of_permutation)
  have ee: "e + of_nat (length (concat rs)) * (fontSize * (1 / 2)) = e'"
    by (simp add: e_def e'_def w algebra_simps)
  have "gapJoin e rest = concat rs @ gapJoin e' (layoutWords fontSize y (e' + fontSize * (1 / 2)) ws)"
    unfolding rest_def gapJoin_word [OF fs] ee ..
  also have "\<dots> = concat rs @ (if ws = [] then [] else SP # joinWords ws)"
    using ne Cons by (subst gapJoin_words [OF fs]) simp_all
  finally have "r @ gapJoin e rest = joinWords words"
    by (simp add: Cons w joinWords_Cons)
  then have "joinLineItems runs = trim (joinWords words)"
    by (simp add: joinLineItems_def sorted g_def e_def)
  moreover have "trimmed (joinWords words)"
    using trimmed_joinWords [OF plain] Cons by (simp add: trimmed_def)
  ultimately show ?thesis by (simp add: trim_id)
qed

theorem word_gaps_reconstructed_witness:
  "0 < (12::rat) \<and>
   plainWords [[js ''Hel'', js ''lo,''], [js ''world!'']] \<and>
   mset (rev (layoutWords 12 700 72 [[js ''Hel'', js ''lo,''], [js ''world!'']]))
     = mset (layoutWords 12 700 72 [[js ''Hel'', js ''lo,''], [js ''world!'']]) \<and>
   joinLineItems (rev (layoutWords 12 700 72 [[js ''Hel'', js ''lo,''], [js ''world!'']]))
     = js ''Hello, world!''"
proof -
  let ?W = "[[js ''Hel'', js ''lo,''], [js ''world!'']]"
  have h1: "0 < (12::rat)" by simp
  have h2: "plainWords ?W" by (simp add: plainWords_def js_def isWhiteSpace_def)
  have h3: "mset (rev (layoutWords 12 700 72 ?W)) = mset (layoutWords 12 700 72 ?W)"
    by (rule mset_rev)
  have j: "joinWords ?W = js ''Hello, world!''" by (simp add: js_def)
  from word_gaps_reconstructed [OF h1 h2 h3] h1 h2 h3 show ?thesis unfolding j by blast
qed

section \<open>Results: the DOCX normalizer\<close>


lemma sameListTag_OL [simp]: "sameListTag t (js ''OL'') \<longleftrightarrow> t = js ''OL''"
  by (auto simp: sameListTag_def js_def)

lemma tagName_appendChildren [simp]: "tagName (appendChildren n moved) = tagName n"
  by (cases n) auto





lemma toLowerCase_LI: "toLowerCase (js ''LI'') = js ''li''"
  by (simp add: toLowerCase_def js_def isUpper_def)


lemma processListItems_li:
  "processListItems (Element (js ''LI'') attrs cs # children) (js ''ol'') depth itemNumber
     = concat (replicate depth (replicate 4 SP)) @ showNat itemNumber @ js ''. '' @
       trim (fst (processItem (js ''LI'') cs depth)) @ [NL] @
       snd (processItem (js ''LI'') cs depth) @
       processListItems children (js ''ol'') depth (Suc itemNumber)"
  by (simp add: toLowerCase_LI split: prod.splits del: showNat.simps)
    (simp add: js_def del: showNat.simps)



text \<open>The items of an ordered list are numbered from the counter on, whatever their attributes.\<close>

lemma processListItems_numbering:
  "processListItems (map (\<lambda>(attrs, cs). Element (js ''LI'') attrs cs) items) (js ''ol'') depth k
     = concat (map (\<lambda>(j, attrs, cs).
                      concat (replicate depth (replicate 4 SP)) @ showNat j @ js ''. '' @
                      trim (fst (processItem (js ''LI'') cs depth)) @ [NL] @
                      snd (processItem (js ''LI'') cs depth))
                 (zip [k ..< k + length items] items))"
proof (induction items arbitrary: k)
  case Nil
  show ?case by simp
next
  case (Cons item items)
  obtain attrs cs where item: "item = (attrs, cs)" by (cases item)
  have up: "[k ..< k + length (item # items)] = k # [Suc k ..< Suc k + length items]"
    by (simp add: upt_rec)
  show ?case
    unfolding up
    by (simp add: item processListItems_li Cons.IH del: processListItems.simps showNat.simps)
qed





end
